theory Spec2Isabelle imports Main begin


section \<open>The event-driven engine of \<^verbatim>\<open>ignite/engines/engine.py\<close>\<close>

text \<open>
  The module defines the enumeration \<^verbatim>\<open>Events\<close>, the attribute bag \<^verbatim>\<open>State\<close> and the
  class \<^verbatim>\<open>Engine\<close>. The embedding keeps the three of them and every method of
  \<^verbatim>\<open>Engine\<close>. Methods whose Python name starts with an underscore lose it
  (\<^verbatim>\<open>_fire_event\<close> is \<open>fire_event\<close>), since an Isabelle name cannot start with one.
\<close>

subsection \<open>Values\<close>

datatype Events =
    EPOCH_STARTED
  | EPOCH_COMPLETED
  | STARTED
  | COMPLETED
  | ITERATION_STARTED
  | ITERATION_COMPLETED
  | EXCEPTION_RAISED

text \<open>\<^verbatim>\<open>Events.__members__.values()\<close>, in declaration order.\<close>

definition Events_members :: "Events list" where
  "Events_members =
     [EPOCH_STARTED, EPOCH_COMPLETED, STARTED, COMPLETED,
      ITERATION_STARTED, ITERATION_COMPLETED, EXCEPTION_RAISED]"

text \<open>
  Exceptions are values; two exceptions are the same object when they are equal. The
  message of an exception that the engine itself builds is kept as its format string,
  the formatted argument left out.
\<close>

datatype exn =
    ValueError string
  | TypeError string
  | AttributeError string
  | RuntimeError string

text \<open>
  The Python values that reach the engine. They are immutable: a dataset that is
  changed in place while it is iterated is outside this universe. \<open>PDict\<close> is a
  dictionary with string keys, as an association list with distinct keys; \<open>PFaulty xs e\<close>
  is an iterable that yields \<open>xs\<close> and then raises \<open>e\<close> instead of stopping.
\<close>

datatype pyval =
    PNone
  | PInt int
  | PStr string
  | PEvent Events
  | PExn exn
  | PList "pyval list"
  | PDict "(string \<times> pyval) list"
  | PFaulty "pyval list" exn

subsection \<open>\<^verbatim>\<open>class State\<close>\<close>

text \<open>
  A \<^verbatim>\<open>State\<close> object is its attribute dictionary. \<^verbatim>\<open>setattr(self, k, v)\<close> stores into it,
  except for the three names that the class of every plain object reserves:
  \<^verbatim>\<open>__class__\<close> accepts only a class (no value here is one), \<^verbatim>\<open>__weakref__\<close> cannot be
  written, and \<^verbatim>\<open>__dict__\<close> replaces the attribute dictionary by the given dictionary.
\<close>

type_synonym State = "string \<rightharpoonup> pyval"

definition setattr :: "string \<Rightarrow> pyval \<Rightarrow> State \<Rightarrow> exn + State" where
  "setattr k v s =
     (if k = ''__class__'' then Inl (TypeError ''__class__ must be set to a class'')
      else if k = ''__weakref__'' then Inl (AttributeError ''attribute __weakref__ is not writable'')
      else if k = ''__dict__'' then
        (case v of
           PDict kvs \<Rightarrow> Inr (map_of kvs)
         | _ \<Rightarrow> Inl (TypeError ''__dict__ must be set to a dictionary''))
      else Inr (s(k \<mapsto> v)))"

text \<open>\<^verbatim>\<open>for k, v in kwargs.items(): setattr(self, k, v)\<close>\<close>

fun setattrs :: "(string \<times> pyval) list \<Rightarrow> State \<Rightarrow> exn + State" where
  "setattrs [] s = Inr s"
| "setattrs ((k, v) # kwargs) s =
     (case setattr k v s of Inl e \<Rightarrow> Inl e | Inr s' \<Rightarrow> setattrs kwargs s')"

text \<open>
  \<^verbatim>\<open>State.__init__(self, **kwargs)\<close>: a keyword argument named \<^verbatim>\<open>self\<close> collides with the
  first parameter and the call raises before the body runs. The body makes three
  assignments and then one \<^verbatim>\<open>setattr\<close> for each keyword argument, in the order of the
  dictionary \<^verbatim>\<open>kwargs\<close>.
\<close>

definition State_init :: "(string \<times> pyval) list \<Rightarrow> exn + State" where
  "State_init kwargs =
     (if ''self'' \<in> set (map fst kwargs) then
        Inl (TypeError ''__init__() got multiple values for argument self'')
      else
        setattrs kwargs [''iteration'' \<mapsto> PInt 0, ''output'' \<mapsto> PNone, ''batch'' \<mapsto> PNone])"

subsection \<open>\<^verbatim>\<open>class Engine\<close>\<close>

type_synonym callable = string

type_synonym kwargs = "(string \<times> pyval) list"

type_synonym registration = "callable \<times> pyval list \<times> kwargs"

record engine =
  event_handlers :: "pyval \<rightharpoonup> registration list"
  process_function :: callable
  should_terminate :: bool
  state :: "State option"

text \<open>
  What the engine does, as an observer sees it. \<open>Fire ev args self\<close> is an entry into
  \<^verbatim>\<open>_fire_event\<close> with the engine as it is then, \<open>Done ev self\<close> the normal return
  from it with the engine as it is then; \<open>LogError\<close> is a call of
  \<^verbatim>\<open>self._logger.error\<close> in an \<^verbatim>\<open>except\<close> clause. The source does not keep this list; it
  is here so that the order of the dispatches can be stated. The debug and info
  messages and the time measurements do not influence the control flow and are left
  out.
\<close>

datatype action =
    Fire Events "pyval list" engine
  | Done Events engine
  | LogError exn

text \<open>
  A method returns or raises, changes the engine, and emits actions.
\<close>

type_synonym 'a result = "(exn + 'a) \<times> engine \<times> action list"

definition ret :: "'a \<Rightarrow> engine \<Rightarrow> 'a result" where
  "ret v self = (Inr v, self, [])"

definition raise :: "exn \<Rightarrow> engine \<Rightarrow> 'a result" where
  "raise e self = (Inl e, self, [])"

text \<open>Sequencing of two statements: the second runs when the first did not raise.\<close>

definition then_do :: "'a result \<Rightarrow> ('a \<Rightarrow> engine \<Rightarrow> 'b result) \<Rightarrow> 'b result" where
  "then_do m f =
     (case m of
        (Inl e, self, tr) \<Rightarrow> (Inl e, self, tr)
      | (Inr v, self, tr) \<Rightarrow> (case f v self of (r, self', tr') \<Rightarrow> (r, self', tr @ tr')))"

definition emit :: "action \<Rightarrow> engine \<Rightarrow> unit result" where
  "emit a self = (Inr (), self, [a])"

text \<open>
  A method that calls handlers may never return: its value is \<open>None\<close> then. The same
  sequencing, and \<^verbatim>\<open>try: m except BaseException as e: h(e)\<close>, for such methods.
\<close>

definition and_then ::
  "'a result option \<Rightarrow> ('a \<Rightarrow> engine \<Rightarrow> 'b result option) \<Rightarrow> 'b result option" where
  "and_then m f =
     (case m of
        None \<Rightarrow> None
      | Some (Inl e, self, tr) \<Rightarrow> Some (Inl e, self, tr)
      | Some (Inr v, self, tr) \<Rightarrow>
          (case f v self of
             None \<Rightarrow> None
           | Some (r, self', tr') \<Rightarrow> Some (r, self', tr @ tr')))"

definition try_except ::
  "'a result option \<Rightarrow> (exn \<Rightarrow> engine \<Rightarrow> 'a result option) \<Rightarrow> 'a result option" where
  "try_except m h =
     (case m of
        None \<Rightarrow> None
      | Some (Inl e, self, tr) \<Rightarrow>
          (case h e self of
             None \<Rightarrow> None
           | Some (r, self', tr') \<Rightarrow> Some (r, self', tr @ tr'))
      | Some (Inr v, self, tr) \<Rightarrow> Some (Inr v, self, tr))"

text \<open>
  \<^verbatim>\<open>Engine.__init__(self, process_function)\<close>. The process function may be \<^verbatim>\<open>None\<close>.
\<close>

definition Engine_init :: "callable option \<Rightarrow> exn + engine" where
  "Engine_init pf =
     (case pf of
        None \<Rightarrow> Inl (ValueError ''Engine must be given a processing function in order to run'')
      | Some f \<Rightarrow>
          Inr \<lparr>event_handlers = Map.empty, process_function = f,
               should_terminate = False, state = None\<rparr>)"

text \<open>
  \<^verbatim>\<open>add_event_handler(self, event_name, handler, *args, **kwargs)\<close>. The event name is
  any value; the guard compares it with the members of \<^verbatim>\<open>Events\<close>.
\<close>

definition add_event_handler ::
  "pyval \<Rightarrow> callable \<Rightarrow> pyval list \<Rightarrow> kwargs \<Rightarrow> engine \<Rightarrow> unit result" where
  "add_event_handler event_name handler args kwargs self =
     (if event_name \<notin> set (map PEvent Events_members) then
        raise (ValueError ''Event {} is not a valid event for this Engine'') self
      else
        let handlers =
              (if event_name \<notin> dom (event_handlers self)
               then (event_handlers self)(event_name \<mapsto> [])
               else event_handlers self)
        in (case handlers event_name of
              None \<Rightarrow> raise (RuntimeError ''KeyError'') self
            | Some regs \<Rightarrow>
                ret () (self\<lparr>event_handlers :=
                               handlers(event_name \<mapsto> regs @ [(handler, args, kwargs)])\<rparr>)))"

text \<open>\<^verbatim>\<open>terminate(self)\<close>\<close>

definition terminate :: "engine \<Rightarrow> engine" where
  "terminate self = self\<lparr>should_terminate := True\<rparr>"

subsection \<open>Callables\<close>

text \<open>
  The handlers and the process function are opaque to the engine. They are named, and
  an interpretation \<open>call\<close> gives what a named callable does when it is applied to the
  engine, to positional arguments and to keyword arguments: it returns a value or
  raises, and before that it uses the engine it was given, in this order, through what
  the engine offers: \<^verbatim>\<open>terminate()\<close>, an assignment to \<^verbatim>\<open>should_terminate\<close>, an
  assignment to \<^verbatim>\<open>state\<close> (a change of an attribute of the state is such an
  assignment), a call of \<^verbatim>\<open>add_event_handler\<close>. A callable that reaches into the
  private \<^verbatim>\<open>_event_handlers\<close> or \<^verbatim>\<open>_process_function\<close> is outside the model.
\<close>

datatype command =
    Terminate
  | Assign_should_terminate bool
  | Assign_state "State option"
  | Add_event_handler pyval callable "pyval list" kwargs

type_synonym env =
  "callable \<Rightarrow> pyval list \<Rightarrow> kwargs \<Rightarrow> engine \<Rightarrow> (exn + pyval) \<times> command list"

text \<open>
  An \<^verbatim>\<open>add_event_handler\<close> that raises leaves the engine as it was; what the callable
  does with that error is part of what \<open>call\<close> says it returns or raises.
\<close>

fun perform :: "command \<Rightarrow> engine \<Rightarrow> engine" where
  "perform Terminate self = terminate self"
| "perform (Assign_should_terminate b) self = self\<lparr>should_terminate := b\<rparr>"
| "perform (Assign_state st) self = self\<lparr>state := st\<rparr>"
| "perform (Add_event_handler event_name handler args kwargs) self =
     fst (snd (add_event_handler event_name handler args kwargs self))"

definition invoke ::
  "env \<Rightarrow> callable \<Rightarrow> pyval list \<Rightarrow> kwargs \<Rightarrow> engine \<Rightarrow> (exn + pyval) \<times> engine" where
  "invoke call f args kwargs self =
     (case call f args kwargs self of (r, cmds) \<Rightarrow> (r, fold perform cmds self))"

subsection \<open>Dispatch\<close>

text \<open>
  The loop of \<^verbatim>\<open>_fire_event\<close>:
  \<^verbatim>\<open>for func, args, kwargs in self._event_handlers[event_name]:
      func(self, *(event_args + args), **kwargs)\<close>
  The iterator of a list holds the list and an index, and looks at the length of the
  list at every step: a registration that a handler appends to this list while the
  loop runs is reached by the loop. \<open>i\<close> is the index. A handler that registers a
  handler for the same event every time it is called keeps the loop running forever.
\<close>

partial_function (option) call_handlers ::
  "env \<Rightarrow> Events \<Rightarrow> pyval list \<Rightarrow> nat \<Rightarrow> engine \<Rightarrow> unit result option" where
  "call_handlers call event_name event_args i self =
     (case event_handlers self (PEvent event_name) of
        None \<Rightarrow> Some (Inr (), self, [])
      | Some regs \<Rightarrow>
          if i < length regs then
            (case regs ! i of
               (func, args, kwargs) \<Rightarrow>
                 (case invoke call func (event_args @ args) kwargs self of
                    (Inl e, self') \<Rightarrow> Some (Inl e, self', [])
                  | (Inr v, self') \<Rightarrow> call_handlers call event_name event_args (Suc i) self'))
          else Some (Inr (), self, []))"

declare call_handlers.simps [code]

definition fire_event :: "env \<Rightarrow> Events \<Rightarrow> pyval list \<Rightarrow> engine \<Rightarrow> unit result option" where
  "fire_event call event_name event_args self =
     and_then (Some (emit (Fire event_name event_args self) self)) (\<lambda>_ self.
     and_then
       (if PEvent event_name \<in> dom (event_handlers self)
        then call_handlers call event_name event_args 0 self
        else Some (ret () self))
       (\<lambda>_ self. Some (emit (Done event_name self) self)))"

subsection \<open>The loops\<close>

text \<open>
  Reading and writing an attribute of \<^verbatim>\<open>self.state\<close>. The state is \<^verbatim>\<open>None\<close> before the
  first run, and a handler may have replaced it or removed an attribute. The names
  that the engine itself writes are ordinary ones.
\<close>

definition get_state_attr :: "string \<Rightarrow> engine \<Rightarrow> pyval result" where
  "get_state_attr k self =
     (case state self of
        None \<Rightarrow> raise (AttributeError ''NoneType object has no attribute {}'') self
      | Some s \<Rightarrow>
          (case s k of
             None \<Rightarrow> raise (AttributeError ''State object has no attribute {}'') self
           | Some v \<Rightarrow> ret v self))"

definition set_state_attr :: "string \<Rightarrow> pyval \<Rightarrow> engine \<Rightarrow> unit result" where
  "set_state_attr k v self =
     (case state self of
        None \<Rightarrow> raise (AttributeError ''NoneType object has no attribute {}'') self
      | Some s \<Rightarrow> ret () (self\<lparr>state := Some (s(k \<mapsto> v))\<rparr>))"

text \<open>\<^verbatim>\<open>self.state.k += 1\<close>: only an integer can be added to \<^verbatim>\<open>1\<close>.\<close>

definition incr_state_attr :: "string \<Rightarrow> engine \<Rightarrow> unit result" where
  "incr_state_attr k self =
     then_do (get_state_attr k self) (\<lambda>v.
       case v of
         PInt n \<Rightarrow> set_state_attr k (PInt (n + 1))
       | _ \<Rightarrow> raise (TypeError ''unsupported operand type(s) for +=''))"

text \<open>\<^verbatim>\<open>self.state.epoch < max_epochs\<close>\<close>

definition epoch_less :: "int \<Rightarrow> engine \<Rightarrow> bool result" where
  "epoch_less max_epochs self =
     then_do (get_state_attr ''epoch'' self) (\<lambda>v.
       case v of
         PInt n \<Rightarrow> ret (n < max_epochs)
       | _ \<Rightarrow> raise (TypeError ''< not supported between instances''))"

text \<open>
  \<^verbatim>\<open>iter\<close> and \<^verbatim>\<open>next\<close> on a value: the items the iterator yields, and the exception it
  raises after them, if it raises one.
\<close>

fun py_iter :: "pyval \<Rightarrow> exn + (pyval list \<times> exn option)" where
  "py_iter (PList xs) = Inr (xs, None)"
| "py_iter (PFaulty xs e) = Inr (xs, Some e)"
| "py_iter (PStr s) = Inr (map (\<lambda>c. PStr [c]) s, None)"
| "py_iter (PDict kvs) = Inr (map (\<lambda>(k, v). PStr k) kvs, None)"
| "py_iter _ = Inl (TypeError ''object is not iterable'')"

text \<open>\<^verbatim>\<open>self._process_function(self, batch)\<close>\<close>

definition call_process_function :: "env \<Rightarrow> pyval \<Rightarrow> engine \<Rightarrow> pyval result" where
  "call_process_function call batch self =
     (case invoke call (process_function self) [batch] [] self of
        (Inl e, self') \<Rightarrow> (Inl e, self', [])
      | (Inr v, self') \<Rightarrow> (Inr v, self', []))"

text \<open>
  The \<^verbatim>\<open>for\<close> loop of \<^verbatim>\<open>_run_once_on_dataset\<close>, over the items that are left:
  \<^verbatim>\<open>for batch in self.state.dataloader:
      self.state.batch = batch
      self.state.iteration += 1
      self._fire_event(Events.ITERATION_STARTED)
      self.state.output = self._process_function(self, batch)
      self._fire_event(Events.ITERATION_COMPLETED)
      if self.should_terminate:
          break\<close>
\<close>

fun for_batches :: "env \<Rightarrow> pyval list \<Rightarrow> exn option \<Rightarrow> engine \<Rightarrow> unit result option" where
  "for_batches call [] final self =
     (case final of None \<Rightarrow> Some (ret () self) | Some e \<Rightarrow> Some (raise e self))"
| "for_batches call (batch # rest) final self =
     and_then (Some (set_state_attr ''batch'' batch self)) (\<lambda>_ self.
     and_then (Some (incr_state_attr ''iteration'' self)) (\<lambda>_ self.
     and_then (fire_event call ITERATION_STARTED [] self) (\<lambda>_ self.
     and_then (Some (call_process_function call batch self)) (\<lambda>output self.
     and_then (Some (set_state_attr ''output'' output self)) (\<lambda>_ self.
     and_then (fire_event call ITERATION_COMPLETED [] self) (\<lambda>_ self.
       if should_terminate self then Some (ret () self)
       else for_batches call rest final self))))))"

text \<open>\<^verbatim>\<open>_handle_exception(self, e)\<close>\<close>

definition handle_exception :: "env \<Rightarrow> exn \<Rightarrow> engine \<Rightarrow> unit result option" where
  "handle_exception call e self =
     (if PEvent EXCEPTION_RAISED \<in> dom (event_handlers self)
      then fire_event call EXCEPTION_RAISED [PExn e] self
      else Some (raise e self))"

text \<open>
  \<^verbatim>\<open>_run_once_on_dataset(self)\<close>. It returns the triple \<^verbatim>\<open>(hours, mins, secs)\<close>, here
  \<open>Some ()\<close>, when the loop ends; when the \<^verbatim>\<open>except\<close> clause ends without raising, the
  method falls off its end and returns \<^verbatim>\<open>None\<close>.
\<close>

definition run_once_on_dataset :: "env \<Rightarrow> engine \<Rightarrow> unit option result option" where
  "run_once_on_dataset call self =
     try_except
       (and_then (Some (get_state_attr ''dataloader'' self)) (\<lambda>dataloader self.
          case py_iter dataloader of
            Inl e \<Rightarrow> Some (raise e self)
          | Inr (batches, final) \<Rightarrow>
              and_then (for_batches call batches final self) (\<lambda>_ self. Some (ret (Some ()) self))))
       (\<lambda>e self.
          and_then (Some (emit (LogError e) self)) (\<lambda>_ self.
          and_then (handle_exception call e self) (\<lambda>_ self. Some (ret None self))))"

text \<open>
  The body of the \<^verbatim>\<open>while\<close> loop of \<^verbatim>\<open>run\<close>; it returns \<open>True\<close> when it ends in
  \<^verbatim>\<open>break\<close>:
  \<^verbatim>\<open>self.state.epoch += 1
  self._fire_event(Events.EPOCH_STARTED)
  hours, mins, secs = self._run_once_on_dataset()
  self._logger.debug("Epoch[%s] Complete. ...", self.state.epoch, hours, mins, secs)
  if self.should_terminate:
      break
  self._fire_event(Events.EPOCH_COMPLETED)\<close>
  Unpacking \<^verbatim>\<open>None\<close> into three names raises a \<^verbatim>\<open>TypeError\<close>; the arguments of the debug
  message are evaluated, so \<^verbatim>\<open>self.state.epoch\<close> is read.
\<close>

definition epoch_body :: "env \<Rightarrow> engine \<Rightarrow> bool result option" where
  "epoch_body call self =
     and_then (Some (incr_state_attr ''epoch'' self)) (\<lambda>_ self.
     and_then (fire_event call EPOCH_STARTED [] self) (\<lambda>_ self.
     and_then (run_once_on_dataset call self) (\<lambda>times self.
       case times of
         None \<Rightarrow> Some (raise (TypeError ''cannot unpack non-iterable NoneType object'') self)
       | Some _ \<Rightarrow>
           and_then (Some (get_state_attr ''epoch'' self)) (\<lambda>_ self.
             if should_terminate self then Some (ret True self)
             else and_then (fire_event call EPOCH_COMPLETED [] self)
                    (\<lambda>_ self. Some (ret False self))))))"

text \<open>
  \<^verbatim>\<open>while self.state.epoch < max_epochs and not self.should_terminate: ...\<close>
  A handler can lower \<^verbatim>\<open>self.state.epoch\<close>, so the loop need not end. The actions so far
  are threaded through.
\<close>

partial_function (option) while_epochs ::
  "env \<Rightarrow> int \<Rightarrow> engine \<Rightarrow> action list \<Rightarrow> unit result option" where
  "while_epochs call max_epochs self tr =
     (case epoch_less max_epochs self of
        (Inl e, self', tr') \<Rightarrow> Some (Inl e, self', tr @ tr')
      | (Inr lt, self', tr') \<Rightarrow>
          if lt \<and> \<not> should_terminate self' then
            (case epoch_body call self' of
               None \<Rightarrow> None
             | Some (Inl e, self'', tr'') \<Rightarrow> Some (Inl e, self'', tr @ tr' @ tr'')
             | Some (Inr stop, self'', tr'') \<Rightarrow>
                 if stop then Some (Inr (), self'', tr @ tr' @ tr'')
                 else while_epochs call max_epochs self'' (tr @ tr' @ tr''))
          else Some (Inr (), self', tr @ tr'))"

declare while_epochs.simps [code]

text \<open>
  \<^verbatim>\<open>run(self, data, max_epochs=1)\<close>. The state is
  \<^verbatim>\<open>State(dataloader=data, epoch=0, max_epochs=max_epochs, metrics={})\<close>; \<open>run_try\<close> is the
  body of the \<^verbatim>\<open>try\<close> statement, \<open>run_from\<close> the \<^verbatim>\<open>try\<close> statement and the
  \<^verbatim>\<open>return self.state\<close> after it.
\<close>

definition new_state :: "pyval \<Rightarrow> int \<Rightarrow> exn + State" where
  "new_state data max_epochs =
     State_init [(''dataloader'', data), (''epoch'', PInt 0),
                 (''max_epochs'', PInt max_epochs), (''metrics'', PDict [])]"

definition run_try :: "env \<Rightarrow> int \<Rightarrow> engine \<Rightarrow> unit result option" where
  "run_try call max_epochs self =
     (case fire_event call STARTED [] self of
        None \<Rightarrow> None
      | Some (Inl e, self', tr) \<Rightarrow> Some (Inl e, self', tr)
      | Some (Inr _, self', tr) \<Rightarrow>
          and_then (while_epochs call max_epochs self' tr)
            (\<lambda>_. fire_event call COMPLETED []))"

definition run_from :: "env \<Rightarrow> int \<Rightarrow> engine \<Rightarrow> State option result option" where
  "run_from call max_epochs self =
     and_then
       (try_except (run_try call max_epochs self)
          (\<lambda>e self. and_then (Some (emit (LogError e) self)) (\<lambda>_. handle_exception call e)))
       (\<lambda>_ self. Some (ret (state self) self))"

definition run :: "env \<Rightarrow> pyval \<Rightarrow> int \<Rightarrow> engine \<Rightarrow> State option result option" where
  "run call data max_epochs self =
     (case new_state data max_epochs of
        Inl e \<Rightarrow> Some (raise e self)
      | Inr st \<Rightarrow> run_from call max_epochs (self\<lparr>state := Some st\<rparr>))"

section \<open>Stating properties\<close>

subsection \<open>Reading the engine and the list of actions\<close>

text \<open>The events whose dispatch was entered, in order.\<close>

definition fired :: "action list \<Rightarrow> Events list" where
  "fired tr = concat (map (\<lambda>a. case a of Fire ev _ _ \<Rightarrow> [ev] | _ \<Rightarrow> []) tr)"

text \<open>An attribute of \<^verbatim>\<open>self.state\<close>, if the state and the attribute exist.\<close>

definition attr :: "engine \<Rightarrow> string \<Rightarrow> pyval option" where
  "attr self k = (case state self of None \<Rightarrow> None | Some s \<Rightarrow> s k)"

subsection \<open>The dispatch as the specification words it\<close>


subsection \<open>What callables may be assumed to do\<close>

text \<open>
  Callables are arbitrary; a theorem that needs them to behave says so with one of these:
  no callable raises, no callable sets the termination flag, no callable changes a given
  attribute of the state, no callable registers a handler.
\<close>

definition never_raises :: "env \<Rightarrow> bool" where
  "never_raises call \<longleftrightarrow> (\<forall>f a k s. \<exists>v. fst (call f a k s) = Inr v)"

definition never_terminates :: "env \<Rightarrow> bool" where
  "never_terminates call \<longleftrightarrow>
     (\<forall>f a k s. \<not> should_terminate s \<longrightarrow> \<not> should_terminate (snd (invoke call f a k s)))"

definition keeps_attr :: "string \<Rightarrow> env \<Rightarrow> bool" where
  "keeps_attr x call \<longleftrightarrow> (\<forall>f a k s. attr (snd (invoke call f a k s)) x = attr s x)"

definition never_registers :: "env \<Rightarrow> bool" where
  "never_registers call \<longleftrightarrow>
     (\<forall>f a k s. event_handlers (snd (invoke call f a k s)) = event_handlers s)"

text \<open>
  The engine is not asked to terminate, and the three attributes of the state that the
  loops read have these values.
\<close>

definition steady :: "engine \<Rightarrow> int \<Rightarrow> int \<Rightarrow> pyval \<Rightarrow> bool" where
  "steady s i e dl \<longleftrightarrow>
     \<not> should_terminate s \<and> attr s ''iteration'' = Some (PInt i) \<and>
     attr s ''epoch'' = Some (PInt e) \<and> attr s ''dataloader'' = Some dl"

subsection \<open>Concrete engines and callables\<close>

text \<open>
  The theorems below are applied to these: callables that return \<^verbatim>\<open>None\<close> and do
  nothing, and the engine that \<^verbatim>\<open>Engine(process)\<close> builds.
\<close>

definition quiet :: env where
  "quiet f args kwargs self = (Inr PNone, [])"

definition engine0 :: engine where
  "engine0 = \<lparr>event_handlers = Map.empty, process_function = ''process'',
               should_terminate = False, state = None\<rparr>"

text \<open>
  Callables that leave a record in the state: \<open>append_to x v\<close> is the assignment
  \<^verbatim>\<open>engine.state.x = engine.state.x + [v]\<close> (the list is started when it is missing).
  In \<open>recording\<close>, the process function records its batch and raises
  \<^verbatim>\<open>ValueError("x")\<close> on the second batch of the run; \<open>register\<close> registers the handler
  \<open>late\<close> for \<open>ITERATION_STARTED\<close>; \<open>stop\<close> calls \<^verbatim>\<open>terminate()\<close>; \<open>fail\<close> records what
  it was called with and raises; every other callable records its name, its positional
  arguments and its keyword arguments, and returns.
\<close>

definition append_to :: "string \<Rightarrow> pyval \<Rightarrow> engine \<Rightarrow> command list" where
  "append_to x v self =
     [Assign_state
        (map_option
           (\<lambda>st. st(x \<mapsto> PList ((case st x of Some (PList xs) \<Rightarrow> xs | _ \<Rightarrow> []) @ [v])))
           (state self))]"

definition recording :: env where
  "recording f args kwargs self =
     (if f = ''process'' then
        (if attr self ''iteration'' = Some (PInt 2) then Inl (ValueError ''x'') else Inr PNone,
         (case args of [b] \<Rightarrow> append_to ''batches'' b self | _ \<Rightarrow> []))
      else if f = ''register'' then
        (Inr PNone, [Add_event_handler (PEvent ITERATION_STARTED) ''late'' [] []])
      else if f = ''stop'' then (Inr PNone, [Terminate])
      else if f = ''fail'' then
        (Inl (RuntimeError ''h''), append_to ''seen'' (PList (PStr f # args @ [PDict kwargs])) self)
      else (Inr PNone, append_to ''seen'' (PList (PStr f # args @ [PDict kwargs])) self))"

text \<open>An engine with one handler for \<open>EXCEPTION_RAISED\<close>.\<close>

definition engine_exc :: engine where
  "engine_exc = engine0\<lparr>event_handlers := [PEvent EXCEPTION_RAISED \<mapsto> [(''on_error'', [], [])]]\<rparr>"




subsection \<open>What a run leaves as it is\<close>

text \<open>The engines that the actions show, in order.\<close>

definition engines :: "action list \<Rightarrow> engine list" where
  "engines tr =
     concat (map (\<lambda>a. case a of Fire _ _ s \<Rightarrow> [s] | Done _ s \<Rightarrow> [s] | LogError _ \<Rightarrow> []) tr)"

text \<open>
  A relation \<open>R\<close> between an engine and a later one holds along what a method does:
  from the engine at the call, through the engines that the actions show, to the engine
  at the end, every one is related to every later one. The relations considered do
  not look at \<^verbatim>\<open>self.state\<close>, and every application of a callable is a step of \<open>R\<close>.
\<close>

definition along :: "(engine \<Rightarrow> engine \<Rightarrow> bool) \<Rightarrow> engine \<Rightarrow> 'a result option \<Rightarrow> bool" where
  "along R s m \<longleftrightarrow>
     (\<forall>r s' tr. m = Some (r, s', tr) \<longrightarrow> sorted_wrt R (s # engines tr @ [s']))"

definition framed :: "(engine \<Rightarrow> engine \<Rightarrow> bool) \<Rightarrow> bool" where
  "framed R \<longleftrightarrow>
     (\<forall>x. R x x) \<and> (\<forall>x y z. R x y \<longrightarrow> R y z \<longrightarrow> R x z) \<and> (\<forall>x st. R x (x\<lparr>state := st\<rparr>))"

definition obeys :: "env \<Rightarrow> (engine \<Rightarrow> engine \<Rightarrow> bool) \<Rightarrow> bool" where
  "obeys call R \<longleftrightarrow> (\<forall>f a k s. R s (snd (invoke call f a k s)))"

text \<open>No callable changes \<^verbatim>\<open>should_terminate\<close>; no callable clears it.\<close>

definition keeps_flag :: "env \<Rightarrow> bool" where
  "keeps_flag call \<longleftrightarrow>
     (\<forall>f a k s. should_terminate (snd (invoke call f a k s)) = should_terminate s)"

definition never_clears :: "env \<Rightarrow> bool" where
  "never_clears call \<longleftrightarrow>
     (\<forall>f a k s. should_terminate s \<longrightarrow> should_terminate (snd (invoke call f a k s)))"

text \<open>
  Callables for a run that is asked to stop: \<open>stop\<close> calls \<^verbatim>\<open>terminate()\<close>, and every
  other callable appends its name to \<^verbatim>\<open>engine.state.seen\<close>. \<open>engine_stop\<close> has \<open>stop\<close>
  registered for \<open>ITERATION_COMPLETED\<close> and a handler for each of \<open>STARTED\<close> and
  \<open>COMPLETED\<close>.
\<close>

definition stopping :: env where
  "stopping f args kwargs self =
     (if f = ''stop'' then (Inr PNone, [Terminate])
      else (Inr PNone, append_to ''seen'' (PStr f) self))"

definition engine_stop :: engine where
  "engine_stop = engine0\<lparr>event_handlers :=
     [PEvent ITERATION_COMPLETED \<mapsto> [(''stop'', [], [])],
      PEvent STARTED \<mapsto> [(''on_start'', [], [])],
      PEvent COMPLETED \<mapsto> [(''on_end'', [], [])]]\<rparr>"


section \<open>Basic facts\<close>

lemma then_do_Inl [simp]: "then_do (Inl e, self, tr) f = (Inl e, self, tr)"
  by (simp add: then_do_def)

lemma then_do_Inr [simp]:
  "then_do (Inr v, self, tr) f = (case f v self of (r, self', tr') \<Rightarrow> (r, self', tr @ tr'))"
  by (simp add: then_do_def)

lemma and_then_None [simp]: "and_then None f = None"
  by (simp add: and_then_def)

lemma and_then_Inl [simp]: "and_then (Some (Inl e, self, tr)) f = Some (Inl e, self, tr)"
  by (simp add: and_then_def)

lemma and_then_Inr [simp]:
  "and_then (Some (Inr v, self, tr)) f =
     (case f v self of None \<Rightarrow> None | Some (r, self', tr') \<Rightarrow> Some (r, self', tr @ tr'))"
  by (simp add: and_then_def)

lemma and_then_ret [simp]: "and_then (Some (ret v self)) f = f v self"
  by (simp add: ret_def split: option.splits)

lemma and_then_raise [simp]: "and_then (Some (raise e self)) f = Some (raise e self)"
  by (simp add: raise_def)

lemma and_then_emit [simp]:
  "and_then (Some (emit a self)) f =
     (case f () self of None \<Rightarrow> None | Some (r, self', tr') \<Rightarrow> Some (r, self', a # tr'))"
  by (simp add: emit_def split: option.splits)

lemma and_then_cases:
  assumes "and_then m f = Some (r, s', tr)"
  obtains (raised) e where "m = Some (Inl e, s', tr)" "r = Inl e"
  | (went_on) v s1 t1 t2 where "m = Some (Inr v, s1, t1)" "f v s1 = Some (r, s', t2)" "tr = t1 @ t2"
proof (cases m)
  case None
  with assms show ?thesis by simp
next
  case (Some x)
  obtain r1 s1 t1 where x: "x = (r1, s1, t1)" by (cases x)
  show ?thesis
  proof (cases r1)
    case (Inl e)
    with assms Some x raised show ?thesis by auto
  next
    case (Inr v)
    with assms Some x went_on show ?thesis by (auto split: option.splits)
  qed
qed

lemma and_then_returns:
  assumes "m \<noteq> None" "\<And>v s. f v s \<noteq> None"
  shows "and_then m f \<noteq> None"
proof -
  from assms(1) obtain r s t where m: "m = Some (r, s, t)" by (cases m) auto
  show ?thesis
  proof (cases r)
    case (Inl e)
    with m show ?thesis by simp
  next
    case (Inr v)
    with m assms(2) [of v s] show ?thesis by (auto split: option.splits)
  qed
qed

lemma try_except_cases:
  assumes "try_except m h = Some (r, s', tr)"
  obtains (returned) v where "m = Some (Inr v, s', tr)" "r = Inr v"
  | (caught) e s1 t1 t2 where "m = Some (Inl e, s1, t1)" "h e s1 = Some (r, s', t2)" "tr = t1 @ t2"
proof (cases m)
  case None
  with assms show ?thesis by (simp add: try_except_def)
next
  case (Some x)
  obtain r1 s1 t1 where x: "x = (r1, s1, t1)" by (cases x)
  show ?thesis
  proof (cases r1)
    case (Inr v)
    with assms Some x returned show ?thesis by (auto simp: try_except_def)
  next
    case (Inl e)
    with assms Some x caught show ?thesis by (auto simp: try_except_def split: option.splits)
  qed
qed

lemma try_except_returns:
  assumes "m \<noteq> None" "\<And>e s. h e s \<noteq> None"
  shows "try_except m h \<noteq> None"
proof -
  from assms(1) obtain r s t where m: "m = Some (r, s, t)" by (cases m) auto
  show ?thesis
  proof (cases r)
    case (Inr v)
    with m show ?thesis by (simp add: try_except_def)
  next
    case (Inl e)
    with m assms(2) [of e s] show ?thesis by (auto simp: try_except_def split: option.splits)
  qed
qed

lemma fired_simps [simp]:
  "fired [] = []"
  "fired (Fire ev args s # tr) = ev # fired tr"
  "fired (Done ev s # tr) = fired tr"
  "fired (LogError e # tr) = fired tr"
  "fired (tr @ tr') = fired tr @ fired tr'"
  by (simp_all add: fired_def)

lemma Events_members_all [simp]: "ev \<in> set Events_members"
  by (cases ev) (simp_all add: Events_members_def)

lemma attr_state_upd [simp]: "attr (s\<lparr>state := Some st\<rparr>) k = st k"
  by (simp add: attr_def)

lemma attr_flag_upd [simp]: "attr (s\<lparr>should_terminate := b\<rparr>) k = attr s k"
  by (simp add: attr_def)

lemma attr_table_upd [simp]: "attr (s\<lparr>event_handlers := t\<rparr>) k = attr s k"
  by (simp add: attr_def)

lemma attr_SomeD: "attr s k = Some v \<Longrightarrow> \<exists>st. state s = Some st \<and> st k = Some v"
  by (auto simp: attr_def split: option.splits)

lemma get_state_attr_same: "get_state_attr k s = (r, s', tr) \<Longrightarrow> s' = s \<and> tr = []"
  by (auto simp: get_state_attr_def raise_def ret_def split: option.splits)

lemma get_state_attr_Some: "attr s k = Some v \<Longrightarrow> get_state_attr k s = (Inr v, s, [])"
  by (auto simp: attr_def get_state_attr_def ret_def split: option.splits)

lemma set_state_attr_Some:
  "state s = Some st \<Longrightarrow> set_state_attr k v s = (Inr (), s\<lparr>state := Some (st(k \<mapsto> v))\<rparr>, [])"
  by (simp add: set_state_attr_def ret_def)

lemma incr_state_attr_Some:
  "state s = Some st \<Longrightarrow> st k = Some (PInt n) \<Longrightarrow>
   incr_state_attr k s = (Inr (), s\<lparr>state := Some (st(k \<mapsto> PInt (n + 1)))\<rparr>, [])"
  by (simp add: incr_state_attr_def get_state_attr_def set_state_attr_def ret_def)

lemma epoch_less_same: "epoch_less n s = (r, s', tr) \<Longrightarrow> s' = s \<and> tr = []"
  by (auto simp: epoch_less_def then_do_def raise_def ret_def
      dest!: get_state_attr_same split: prod.splits sum.splits pyval.splits)

lemma epoch_less_Some:
  "attr s ''epoch'' = Some (PInt e) \<Longrightarrow> epoch_less n s = (Inr (e < n), s, [])"
  by (simp add: epoch_less_def get_state_attr_Some ret_def)

lemma invoke_eq:
  "invoke call f a k s = (fst (call f a k s), fold perform (snd (call f a k s)) s)"
  by (simp add: invoke_def split: prod.splits)

subsection \<open>Rules for the two loops that may not end\<close>

text \<open>
  When the loop over the handlers ends, either a handler raised or the index reached
  the end of the list; an invariant of the index and the engine, kept by every handler
  that returns, holds at that point.
\<close>

lemma call_handlers_rule:
  assumes run: "call_handlers call ev ea i0 s0 = Some res"
    and inv: "I i0 s0"
    and step: "\<And>i s regs func args kwargs v s'. I i s \<Longrightarrow>
                 event_handlers s (PEvent ev) = Some regs \<Longrightarrow> i < length regs \<Longrightarrow>
                 regs ! i = (func, args, kwargs) \<Longrightarrow>
                 invoke call func (ea @ args) kwargs s = (Inr v, s') \<Longrightarrow> I (Suc i) s'"
    and fail: "\<And>i s regs func args kwargs e s'. I i s \<Longrightarrow>
                 event_handlers s (PEvent ev) = Some regs \<Longrightarrow> i < length regs \<Longrightarrow>
                 regs ! i = (func, args, kwargs) \<Longrightarrow>
                 invoke call func (ea @ args) kwargs s = (Inl e, s') \<Longrightarrow> Q (Inl e, s', [])"
    and exit: "\<And>i s. I i s \<Longrightarrow>
                 (case event_handlers s (PEvent ev) of
                    None \<Rightarrow> True | Some regs \<Rightarrow> \<not> i < length regs) \<Longrightarrow> Q (Inr (), s, [])"
  shows "Q res"
proof -
  have "c = call \<longrightarrow> ev' = ev \<longrightarrow> ea' = ea \<longrightarrow> I i s \<longrightarrow> Q res"
    if "call_handlers c ev' ea' i s = Some res" for c ev' ea' i s
  proof (rule call_handlers.raw_induct
      [where P = "\<lambda>c ev' ea' i s res. c = call \<longrightarrow> ev' = ev \<longrightarrow> ea' = ea \<longrightarrow> I i s \<longrightarrow> Q res",
        OF _ that])
    fix w c ev' ea' i s res
    assume IH: "\<And>c ev' ea' i s res. w c ev' ea' i s = Some res \<Longrightarrow>
                  c = call \<longrightarrow> ev' = ev \<longrightarrow> ea' = ea \<longrightarrow> I i s \<longrightarrow> Q res"
      and body: "(case event_handlers s (PEvent ev') of
          None \<Rightarrow> Some (Inr (), s, [])
        | Some regs \<Rightarrow>
            if i < length regs then
              (case regs ! i of
                 (func, args, kwargs) \<Rightarrow>
                   (case invoke c func (ea' @ args) kwargs s of
                      (Inl e, self') \<Rightarrow> Some (Inl e, self', [])
                    | (Inr v, self') \<Rightarrow> w c ev' ea' (Suc i) self'))
            else Some (Inr (), s, [])) = Some res"
    show "c = call \<longrightarrow> ev' = ev \<longrightarrow> ea' = ea \<longrightarrow> I i s \<longrightarrow> Q res"
    proof (intro impI)
      assume eqs: "c = call" "ev' = ev" "ea' = ea" and I: "I i s"
      show "Q res"
      proof (cases "event_handlers s (PEvent ev)")
        case None
        with body eqs exit [OF I] show ?thesis by auto
      next
        case (Some regs)
        show ?thesis
        proof (cases "i < length regs")
          case False
          with body eqs Some exit [OF I] show ?thesis by auto
        next
          case True
          obtain func args kwargs where reg: "regs ! i = (func, args, kwargs)"
            by (cases "regs ! i")
          obtain r1 s1 where iv: "invoke call func (ea @ args) kwargs s = (r1, s1)"
            by (cases "invoke call func (ea @ args) kwargs s")
          show ?thesis
          proof (cases r1)
            case (Inl e)
            with body eqs Some True reg iv fail [OF I Some True reg, of e s1]
            show ?thesis by auto
          next
            case (Inr v)
            with body eqs Some True reg iv have "w call ev ea (Suc i) s1 = Some res" by auto
            from IH [OF this] step [OF I Some True reg, of v s1] iv Inr show ?thesis by auto
          qed
        qed
      qed
    qed
  qed
  with run inv show ?thesis by blast
qed

text \<open>
  When the loop over the epochs ends, it ends in one of four ways: the comparison
  raises, the condition is false, the body raises, or the body ends in \<^verbatim>\<open>break\<close>. An
  invariant of the engine and the actions so far, kept by every pass that goes on to
  the next one, holds at that point.
\<close>

lemma while_epochs_rule:
  assumes run: "while_epochs call n s0 tr0 = Some res"
    and inv: "I s0 tr0"
    and step: "\<And>s t s2 t2. I s t \<Longrightarrow> epoch_less n s = (Inr True, s, []) \<Longrightarrow>
                 \<not> should_terminate s \<Longrightarrow> epoch_body call s = Some (Inr False, s2, t2) \<Longrightarrow>
                 I s2 (t @ t2)"
    and exit1: "\<And>s t e. I s t \<Longrightarrow> epoch_less n s = (Inl e, s, []) \<Longrightarrow> Q (Inl e, s, t)"
    and exit2: "\<And>s t lt. I s t \<Longrightarrow> epoch_less n s = (Inr lt, s, []) \<Longrightarrow>
                 \<not> (lt \<and> \<not> should_terminate s) \<Longrightarrow> Q (Inr (), s, t)"
    and exit3: "\<And>s t e s2 t2. I s t \<Longrightarrow> epoch_less n s = (Inr True, s, []) \<Longrightarrow>
                 \<not> should_terminate s \<Longrightarrow> epoch_body call s = Some (Inl e, s2, t2) \<Longrightarrow>
                 Q (Inl e, s2, t @ t2)"
    and exit4: "\<And>s t s2 t2. I s t \<Longrightarrow> epoch_less n s = (Inr True, s, []) \<Longrightarrow>
                 \<not> should_terminate s \<Longrightarrow> epoch_body call s = Some (Inr True, s2, t2) \<Longrightarrow>
                 Q (Inr (), s2, t @ t2)"
  shows "Q res"
proof -
  have "call' = call \<longrightarrow> n' = n \<longrightarrow> I s t \<longrightarrow> Q res"
    if "while_epochs call' n' s t = Some res" for call' n' s t
  proof (rule while_epochs.raw_induct
      [where P = "\<lambda>c m s t res. c = call \<longrightarrow> m = n \<longrightarrow> I s t \<longrightarrow> Q res", OF _ that])
    fix w c m s t res
    assume 1: "\<And>c m s t res. w c m s t = Some res \<Longrightarrow> c = call \<longrightarrow> m = n \<longrightarrow> I s t \<longrightarrow> Q res"
      "(case epoch_less m s of
          (Inl e, self', tr') \<Rightarrow> Some (Inl e, self', t @ tr')
        | (Inr lt, self', tr') \<Rightarrow>
            if lt \<and> \<not> should_terminate self'
            then case epoch_body c self' of
                   None \<Rightarrow> None
                 | Some (Inl e, self'', tr'') \<Rightarrow> Some (Inl e, self'', t @ tr' @ tr'')
                 | Some (Inr stop, self'', tr'') \<Rightarrow>
                     if stop then Some (Inr (), self'', t @ tr' @ tr'')
                     else w c m self'' (t @ tr' @ tr'')
            else Some (Inr (), self', t @ tr')) = Some res"
    show "c = call \<longrightarrow> m = n \<longrightarrow> I s t \<longrightarrow> Q res"
    proof (intro impI)
      assume c: "c = call" and m: "m = n" and I: "I s t"
      obtain r1 s1 t1 where el: "epoch_less n s = (r1, s1, t1)" by (cases "epoch_less n s")
      from epoch_less_same [OF el] have s1: "s1 = s" "t1 = []" by auto
      show "Q res"
      proof (cases r1)
        case (Inl e)
        with 1(2) el s1 c m exit1 [OF I] show ?thesis by auto
      next
        case (Inr lt)
        show ?thesis
        proof (cases "lt \<and> \<not> should_terminate s")
          case False
          with 1(2) el s1 c m Inr exit2 [OF I, of lt] show ?thesis by auto
        next
          case True
          from 1(2) el s1 c m Inr True obtain r2 s2 t2 where
            eb: "epoch_body call s = Some (r2, s2, t2)"
            by (cases "epoch_body call s") auto
          show ?thesis
          proof (cases r2)
            case (Inl e)
            with 1(2) el s1 c m Inr True eb exit3 [OF I, of e s2 t2] show ?thesis by auto
          next
            case r2: (Inr stop)
            show ?thesis
            proof (cases stop)
              case True': True
              with 1(2) el s1 c m Inr True eb r2 exit4 [OF I, of s2 t2] show ?thesis by auto
            next
              case False
              with 1(2) el s1 c m Inr True eb r2 have "w call n s2 (t @ t2) = Some res" by auto
              from 1(1) [OF this] step [OF I, of s2 t2] el s1 Inr True eb r2 False
              show ?thesis by auto
            qed
          qed
        qed
      qed
    qed
  qed
  with run inv show ?thesis by blast
qed


section \<open>Registration and dispatch\<close>

lemma call_handlers_trace:
  assumes "call_handlers call ev ea i s = Some (r, s', tr)"
  shows "tr = []"
proof -
  define Q where "Q = (\<lambda>res :: unit result. snd (snd res) = [])"
  have "Q (r, s', tr)"
    by (rule call_handlers_rule [OF assms, where I = "\<lambda>i s. True" and Q = Q])
      (simp_all add: Q_def)
  then show ?thesis by (simp add: Q_def)
qed

lemma fire_event_absent:
  "event_handlers s (PEvent ev) = None \<Longrightarrow>
   fire_event call ev ea s = Some (Inr (), s, [Fire ev ea s, Done ev s])"
  by (simp add: fire_event_def dom_def ret_def emit_def)

lemma fire_event_present:
  "event_handlers s (PEvent ev) = Some regs \<Longrightarrow>
   fire_event call ev ea s =
     (case call_handlers call ev ea 0 s of
        None \<Rightarrow> None
      | Some (Inl e, s', t) \<Rightarrow> Some (Inl e, s', Fire ev ea s # t)
      | Some (Inr u, s', t) \<Rightarrow> Some (Inr (), s', Fire ev ea s # t @ [Done ev s']))"
  by (simp add: fire_event_def dom_def emit_def split: option.splits sum.splits prod.splits)

lemma fire_event_cases:
  assumes "fire_event call ev ea s = Some (r, s', tr)"
  obtains (absent) "event_handlers s (PEvent ev) = None" "r = Inr ()" "s' = s"
      "tr = [Fire ev ea s, Done ev s]"
  | (returned) regs where "event_handlers s (PEvent ev) = Some regs"
      "call_handlers call ev ea 0 s = Some (Inr (), s', [])" "r = Inr ()"
      "tr = [Fire ev ea s, Done ev s']"
  | (raised) regs e where "event_handlers s (PEvent ev) = Some regs"
      "call_handlers call ev ea 0 s = Some (Inl e, s', [])" "r = Inl e"
      "tr = [Fire ev ea s]"
proof (cases "event_handlers s (PEvent ev)")
  case None
  from assms have "r = Inr ()" "s' = s" "tr = [Fire ev ea s, Done ev s]"
    unfolding fire_event_absent [OF None] by auto
  with None absent show ?thesis by blast
next
  case (Some regs)
  note fe = assms [unfolded fire_event_present [OF Some]]
  from fe obtain r1 s1 t1 where ch: "call_handlers call ev ea 0 s = Some (r1, s1, t1)"
    by (cases "call_handlers call ev ea 0 s") auto
  from call_handlers_trace [OF ch] have t1: "t1 = []" .
  show ?thesis
  proof (cases r1)
    case (Inl e)
    from fe have "r = Inl e" "s' = s1" "tr = [Fire ev ea s]"
      unfolding ch Inl t1 by auto
    with Some ch Inl t1 raised [of regs e] show ?thesis by blast
  next
    case (Inr u)
    from fe have "r = Inr ()" "s' = s1" "tr = [Fire ev ea s, Done ev s1]"
      unfolding ch Inr t1 by auto
    with Some ch Inr t1 returned [of regs] show ?thesis by simp
  qed
qed

subsection \<open>A dispatch ends when no handler registers a handler\<close>

lemma call_handlers_returns:
  assumes "never_registers call"
  shows "call_handlers call ev ea i s \<noteq> None"
proof (cases "event_handlers s (PEvent ev)")
  case None
  then show ?thesis by (subst call_handlers.simps) simp
next
  case (Some regs)
  have "event_handlers s (PEvent ev) = Some regs \<Longrightarrow> length regs - i = d \<Longrightarrow>
        call_handlers call ev ea i s \<noteq> None" for d i s
  proof (induction d arbitrary: i s)
    case 0
    then show ?case by (subst call_handlers.simps) simp
  next
    case (Suc d)
    then have lt: "i < length regs" by simp
    obtain func args kwargs where reg: "regs ! i = (func, args, kwargs)" by (cases "regs ! i")
    obtain r1 s1 where iv: "invoke call func (ea @ args) kwargs s = (r1, s1)"
      by (cases "invoke call func (ea @ args) kwargs s")
    from assms iv have same: "event_handlers s1 = event_handlers s"
      unfolding never_registers_def by (metis snd_conv)
    show ?case
    proof (cases r1)
      case (Inl e)
      with Suc.prems(1) lt reg iv show ?thesis by (subst call_handlers.simps) simp
    next
      case (Inr v)
      from Suc.prems same lt have "event_handlers s1 (PEvent ev) = Some regs" "length regs - Suc i = d"
        by simp_all
      from Suc.IH [OF this] Suc.prems(1) lt reg iv Inr show ?thesis
        by (subst call_handlers.simps) simp
    qed
  qed
  from this [OF Some refl] show ?thesis .
qed

lemma fire_event_returns:
  assumes "never_registers call"
  shows "fire_event call ev ea s \<noteq> None"
proof (cases "event_handlers s (PEvent ev)")
  case None
  then show ?thesis by (simp add: fire_event_absent)
next
  case (Some regs)
  with call_handlers_returns [OF assms, of ev ea 0 s] show ?thesis
    by (auto simp: fire_event_present split: option.splits sum.splits)
qed

subsection \<open>The list of an event only grows\<close>





subsection \<open>The loop over the live list and the dispatch of the specification\<close>




lemmas engine_defs =
  run_def run_from_def run_try_def new_state_def State_init_def setattr_def
  fire_event_def and_then_def then_do_def try_except_def
  emit_def ret_def raise_def while_epochs.simps call_handlers.simps epoch_less_def
  get_state_attr_def epoch_body_def incr_state_attr_def set_state_attr_def
  run_once_on_dataset_def call_process_function_def invoke_def handle_exception_def attr_def
  add_event_handler_def terminate_def append_to_def






section \<open>The constructor of the run state\<close>

lemma setattr_ordinary:
  "k \<notin> {''__class__'', ''__dict__'', ''__weakref__''} \<Longrightarrow> setattr k v s = Inr (s(k \<mapsto> v))"
  by (simp add: setattr_def)

lemma setattrs_ordinary:
  "distinct (map fst kwargs) \<Longrightarrow>
   set (map fst kwargs) \<inter> {''__class__'', ''__dict__'', ''__weakref__''} = {} \<Longrightarrow>
   \<exists>st. setattrs kwargs s = Inr st \<and>
        (\<forall>k. st k = (case map_of kwargs k of Some v \<Rightarrow> Some v | None \<Rightarrow> s k))"
proof (induction kwargs arbitrary: s)
  case Nil
  then show ?case by simp
next
  case (Cons kv kwargs)
  obtain k' v' where kv: "kv = (k', v')" by (cases kv)
  from Cons.prems kv have d: "distinct (map fst kwargs)"
    and n: "k' \<notin> fst ` set kwargs"
    and o: "k' \<notin> {''__class__'', ''__dict__'', ''__weakref__''}"
    and r: "set (map fst kwargs) \<inter> {''__class__'', ''__dict__'', ''__weakref__''} = {}"
    by auto
  from n have none: "map_of kwargs k' = None" by (simp add: map_of_eq_None_iff)
  from Cons.IH [OF d r, of "s(k' \<mapsto> v')"] obtain st where
    st: "setattrs kwargs (s(k' \<mapsto> v')) = Inr st"
    "\<forall>k. st k = (case map_of kwargs k of Some v \<Rightarrow> Some v | None \<Rightarrow> (s(k' \<mapsto> v')) k)"
    by blast
  have "setattrs (kv # kwargs) s = Inr st"
    using kv st(1) setattr_ordinary [OF o, of v' s] by simp
  moreover have "\<forall>k. st k = (case map_of (kv # kwargs) k of Some v \<Rightarrow> Some v | None \<Rightarrow> s k)"
    using st(2) kv none by (auto split: option.splits)
  ultimately show ?case by blast
qed

lemma new_state_eq:
  "new_state data max_epochs =
     Inr [''iteration'' \<mapsto> PInt 0, ''output'' \<mapsto> PNone, ''batch'' \<mapsto> PNone,
          ''dataloader'' \<mapsto> data, ''epoch'' \<mapsto> PInt 0,
          ''max_epochs'' \<mapsto> PInt max_epochs, ''metrics'' \<mapsto> PDict []]"
  by (simp add: new_state_def State_init_def setattr_def)

text \<open>
  C10, as the code has it. The constructor assigns \<open>iteration = 0\<close>, \<open>output = None\<close>,
  \<open>batch = None\<close> and then every keyword argument. When no keyword argument is named
  \<open>self\<close>, \<open>__class__\<close>, \<open>__dict__\<close> or \<open>__weakref__\<close>, it returns, a keyword argument
  gives the attribute of its name its value, also when the name is \<open>iteration\<close>,
  \<open>output\<close> or \<open>batch\<close>, and every other attribute keeps the value the three assignments
  gave it (the keys of the dictionary \<^verbatim>\<open>kwargs\<close> are distinct). \<^verbatim>\<open>run\<close> builds the state
  with the three defaults, the dataset under \<open>dataloader\<close>, \<open>epoch = 0\<close>, the given
  \<open>max_epochs\<close> and empty \<open>metrics\<close>, makes it the state of the engine, and goes on
  from there, whether or not it returns.
\<close>

theorem State_init_kwargs:
  assumes "distinct (map fst kwargs)"
    and "set (map fst kwargs) \<inter> {''self'', ''__class__'', ''__dict__'', ''__weakref__''} = {}"
  shows "(\<exists>st. State_init kwargs = Inr st \<and>
            (\<forall>k. st k =
               (case map_of kwargs k of
                  Some v \<Rightarrow> Some v
                | None \<Rightarrow> [''iteration'' \<mapsto> PInt 0, ''output'' \<mapsto> PNone, ''batch'' \<mapsto> PNone] k)))
         \<and> new_state data max_epochs =
             Inr [''iteration'' \<mapsto> PInt 0, ''output'' \<mapsto> PNone, ''batch'' \<mapsto> PNone,
                  ''dataloader'' \<mapsto> data, ''epoch'' \<mapsto> PInt 0,
                  ''max_epochs'' \<mapsto> PInt max_epochs, ''metrics'' \<mapsto> PDict []]
         \<and> run call data max_epochs self =
             run_from call max_epochs
               (self\<lparr>state := Some [''iteration'' \<mapsto> PInt 0, ''output'' \<mapsto> PNone, ''batch'' \<mapsto> PNone,
                  ''dataloader'' \<mapsto> data, ''epoch'' \<mapsto> PInt 0,
                  ''max_epochs'' \<mapsto> PInt max_epochs, ''metrics'' \<mapsto> PDict []]\<rparr>)"
proof (intro conjI)
  from assms(2) have s: "''self'' \<notin> set (map fst kwargs)"
    and o: "set (map fst kwargs) \<inter> {''__class__'', ''__dict__'', ''__weakref__''} = {}"
    by auto
  from setattrs_ordinary [OF assms(1) o] s
  show "\<exists>st. State_init kwargs = Inr st \<and>
            (\<forall>k. st k =
               (case map_of kwargs k of
                  Some v \<Rightarrow> Some v
                | None \<Rightarrow> [''iteration'' \<mapsto> PInt 0, ''output'' \<mapsto> PNone, ''batch'' \<mapsto> PNone] k))"
    unfolding State_init_def by simp
  show "new_state data max_epochs =
             Inr [''iteration'' \<mapsto> PInt 0, ''output'' \<mapsto> PNone, ''batch'' \<mapsto> PNone,
                  ''dataloader'' \<mapsto> data, ''epoch'' \<mapsto> PInt 0,
                  ''max_epochs'' \<mapsto> PInt max_epochs, ''metrics'' \<mapsto> PDict []]"
    by (rule new_state_eq)
  show "run call data max_epochs self =
             run_from call max_epochs
               (self\<lparr>state := Some [''iteration'' \<mapsto> PInt 0, ''output'' \<mapsto> PNone, ''batch'' \<mapsto> PNone,
                  ''dataloader'' \<mapsto> data, ''epoch'' \<mapsto> PInt 0,
                  ''max_epochs'' \<mapsto> PInt max_epochs, ''metrics'' \<mapsto> PDict []]\<rparr>)"
    by (simp add: run_def new_state_eq)
qed

theorem State_init_kwargs_witness:
  "distinct (map fst [(''iteration'', PInt 5), (''note'', PStr ''x'')])
   \<and> set (map fst [(''iteration'', PInt 5), (''note'', PStr ''x'')]) \<inter>
         {''self'', ''__class__'', ''__dict__'', ''__weakref__''} = {}
   \<and> (\<exists>st. State_init [(''iteration'', PInt 5), (''note'', PStr ''x'')] = Inr st
          \<and> st ''iteration'' = Some (PInt 5) \<and> st ''batch'' = Some PNone
          \<and> st ''note'' = Some (PStr ''x'') \<and> st ''epoch'' = None)
   \<and> (\<exists>st s' tr. run quiet (PList []) 0 engine0 = Some (Inr (Some st), s', tr)
          \<and> st ''epoch'' = Some (PInt 0) \<and> st ''max_epochs'' = Some (PInt 0)
          \<and> st ''dataloader'' = Some (PList []) \<and> st ''metrics'' = Some (PDict []))"
proof -
  have d: "distinct (map fst [(''iteration'', PInt 5), (''note'', PStr ''x'')])" by simp
  have o: "set (map fst [(''iteration'', PInt 5), (''note'', PStr ''x'')]) \<inter>
         {''self'', ''__class__'', ''__dict__'', ''__weakref__''} = {}" by simp
  note sk = State_init_kwargs [OF d o, of "PList []" 0 quiet engine0]
  from sk obtain st where st: "State_init [(''iteration'', PInt 5), (''note'', PStr ''x'')] = Inr st"
    "\<forall>k. st k = (case map_of [(''iteration'', PInt 5), (''note'', PStr ''x'')] k of
                  Some v \<Rightarrow> Some v
                | None \<Rightarrow> [''iteration'' \<mapsto> PInt 0, ''output'' \<mapsto> PNone, ''batch'' \<mapsto> PNone] k)"
    by blast
  from st(2) have a: "st ''iteration'' = Some (PInt 5)" "st ''batch'' = Some PNone"
    "st ''note'' = Some (PStr ''x'')" "st ''epoch'' = None"
    by simp_all
  from sk have r: "run quiet (PList []) 0 engine0 =
      run_from quiet 0 (engine0\<lparr>state := Some [''iteration'' \<mapsto> PInt 0, ''output'' \<mapsto> PNone,
         ''batch'' \<mapsto> PNone, ''dataloader'' \<mapsto> PList [], ''epoch'' \<mapsto> PInt 0,
         ''max_epochs'' \<mapsto> PInt 0, ''metrics'' \<mapsto> PDict []]\<rparr>)"
    by blast
  have "\<exists>st s' tr. run quiet (PList []) 0 engine0 = Some (Inr (Some st), s', tr)
          \<and> st ''epoch'' = Some (PInt 0) \<and> st ''max_epochs'' = Some (PInt 0)
          \<and> st ''dataloader'' = Some (PList []) \<and> st ''metrics'' = Some (PDict [])"
    unfolding r by (simp add: engine_defs engine0_def quiet_def)
  with d o st(1) a show ?thesis by blast
qed

text \<open>
  C10, where the claim as worded fails: a keyword argument does not always become an
  attribute. One named \<open>__class__\<close> or \<open>__weakref__\<close> makes the constructor raise, and so
  does one named \<open>self\<close> (the call cannot bind it); one named \<open>__dict__\<close> replaces the
  attributes assigned so far, the three defaults among them, and is itself not an
  attribute of the result.
\<close>

theorem State_init_reserved_name:
  "State_init [(''__class__'', PInt 1)] = Inl (TypeError ''__class__ must be set to a class'')
   \<and> State_init [(''__weakref__'', PNone)]
       = Inl (AttributeError ''attribute __weakref__ is not writable'')
   \<and> State_init [(''self'', PInt 1)]
       = Inl (TypeError ''__init__() got multiple values for argument self'')
   \<and> State_init [(''__dict__'', PDict [(''a'', PInt 1)])] = Inr [''a'' \<mapsto> PInt 1]"
  by (simp add: State_init_def setattr_def)


section \<open>A process function that raises on the second batch\<close>

text \<open>
  C3. The dataset has at least two batches and the process function raises
  \<^verbatim>\<open>ValueError("x")\<close> on the second one; the engine is not asked to terminate. With an
  empty handler table, \<^verbatim>\<open>run\<close> raises that \<^verbatim>\<open>ValueError\<close>, after the process function was
  called on the first two batches. With one handler for \<open>EXCEPTION_RAISED\<close>, which
  records what it is called with, \<^verbatim>\<open>run\<close> returns the state: its \<open>iteration\<close> is 2, its
  \<open>epoch\<close> is 1, the process function was called on the first two batches only, and the
  first thing the handler was called with is that \<^verbatim>\<open>ValueError\<close>.
\<close>

theorem run_raises_on_second_batch:
  assumes "1 \<le> N"
    and "h \<notin> {''process'', ''register'', ''stop'', ''fail''}"
  shows "(\<exists>s' tr. run recording (PList (b1 # b2 # rest)) N
                    (self\<lparr>event_handlers := Map.empty, process_function := ''process'',
                          should_terminate := False\<rparr>)
                  = Some (Inl (ValueError ''x''), s', tr)
              \<and> attr s' ''iteration'' = Some (PInt 2)
              \<and> attr s' ''batches'' = Some (PList [b1, b2]))
         \<and> (\<exists>st s' tr. run recording (PList (b1 # b2 # rest)) N
                    (self\<lparr>event_handlers := [PEvent EXCEPTION_RAISED \<mapsto> [(h, a, k)]],
                          process_function := ''process'', should_terminate := False\<rparr>)
                  = Some (Inr (Some st), s', tr)
              \<and> st ''iteration'' = Some (PInt 2)
              \<and> st ''epoch'' = Some (PInt 1)
              \<and> st ''batches'' = Some (PList [b1, b2])
              \<and> st ''seen'' =
                  Some (PList
                    [PList (PStr h # PExn (ValueError ''x'') # a @ [PDict k]),
                     PList (PStr h # PExn (TypeError ''cannot unpack non-iterable NoneType object'')
                              # a @ [PDict k])]))"
proof (rule conjI)
  show "\<exists>s' tr. run recording (PList (b1 # b2 # rest)) N
                    (self\<lparr>event_handlers := Map.empty, process_function := ''process'',
                          should_terminate := False\<rparr>)
                  = Some (Inl (ValueError ''x''), s', tr)
              \<and> attr s' ''iteration'' = Some (PInt 2)
              \<and> attr s' ''batches'' = Some (PList [b1, b2])"
    using assms(1)
    by (simp add: engine_defs recording_def cong: if_weak_cong)
  show "\<exists>st s' tr. run recording (PList (b1 # b2 # rest)) N
                    (self\<lparr>event_handlers := [PEvent EXCEPTION_RAISED \<mapsto> [(h, a, k)]],
                          process_function := ''process'', should_terminate := False\<rparr>)
                  = Some (Inr (Some st), s', tr)
              \<and> st ''iteration'' = Some (PInt 2)
              \<and> st ''epoch'' = Some (PInt 1)
              \<and> st ''batches'' = Some (PList [b1, b2])
              \<and> st ''seen'' =
                  Some (PList
                    [PList (PStr h # PExn (ValueError ''x'') # a @ [PDict k]),
                     PList (PStr h # PExn (TypeError ''cannot unpack non-iterable NoneType object'')
                              # a @ [PDict k])])"
    using assms
    by (simp add: engine_defs recording_def cong: if_weak_cong)
qed

theorem run_raises_on_second_batch_witness:
  "(1::int) \<le> 1 \<and> ''on_error'' \<notin> {''process'', ''register'', ''stop'', ''fail''}
   \<and> (\<exists>s' tr. run recording (PList [PInt 1, PInt 2, PInt 3]) 1 engine0 =
            Some (Inl (ValueError ''x''), s', tr))
   \<and> (\<exists>st s' tr. run recording (PList [PInt 1, PInt 2, PInt 3]) 1 engine_exc =
                Some (Inr (Some st), s', tr)
              \<and> st ''iteration'' = Some (PInt 2)
              \<and> st ''batches'' = Some (PList [PInt 1, PInt 2])
              \<and> st ''seen'' =
                  Some (PList
                    [PList [PStr ''on_error'', PExn (ValueError ''x''), PDict []],
                     PList [PStr ''on_error'',
                            PExn (TypeError ''cannot unpack non-iterable NoneType object''),
                            PDict []]]))"
proof -
  have n: "(1::int) \<le> 1" by simp
  have h: "''on_error'' \<notin> {''process'', ''register'', ''stop'', ''fail''}" by simp
  have e0: "engine0\<lparr>event_handlers := Map.empty, process_function := ''process'',
                     should_terminate := False\<rparr> = engine0"
    by (simp add: engine0_def)
  have e1: "engine0\<lparr>event_handlers := [PEvent EXCEPTION_RAISED \<mapsto> [(''on_error'', [], [])]],
                     process_function := ''process'', should_terminate := False\<rparr> = engine_exc"
    by (simp add: engine0_def engine_exc_def)
  from run_raises_on_second_batch [OF n h, of "PInt 1" "PInt 2" "[PInt 3]" engine0 "[]" "[]"]
  show ?thesis unfolding e0 e1 using n h by auto
qed


section \<open>Runs that nothing disturbs\<close>

text \<open>The statements of the loops, by what they do to the attributes.\<close>

lemma and_then_Inr_nil: "and_then (Some (Inr v, self, [])) f = f v self"
  by (simp split: option.splits)

lemma invoke_steady:
  assumes "never_raises call" "never_terminates call" "keeps_attr ''iteration'' call"
    "keeps_attr ''epoch'' call" "keeps_attr ''dataloader'' call" "steady s i e dl"
  shows "\<exists>v s'. invoke call f a k s = (Inr v, s') \<and> steady s' i e dl"
proof -
  obtain r s' where inv: "invoke call f a k s = (r, s')" by (cases "invoke call f a k s")
  from assms(1) obtain v where "fst (call f a k s) = Inr v"
    unfolding never_raises_def by blast
  with inv have "r = Inr v" by (simp add: invoke_eq)
  moreover have "steady s' i e dl"
  proof -
    from assms(2) assms(6) have "\<not> should_terminate (snd (invoke call f a k s))"
      unfolding never_terminates_def steady_def by blast
    moreover from assms(3-5) have "attr (snd (invoke call f a k s)) ''iteration'' = attr s ''iteration''"
      "attr (snd (invoke call f a k s)) ''epoch'' = attr s ''epoch''"
      "attr (snd (invoke call f a k s)) ''dataloader'' = attr s ''dataloader''"
      unfolding keeps_attr_def by blast+
    ultimately show ?thesis using assms(6) inv by (simp add: steady_def)
  qed
  ultimately show ?thesis using inv by blast
qed

lemma call_handlers_steady:
  assumes "never_raises call" "never_terminates call" "keeps_attr ''iteration'' call"
    "keeps_attr ''epoch'' call" "keeps_attr ''dataloader'' call" "steady s i e dl"
    and run: "call_handlers call ev ea j s = Some (r, s', tr)"
  shows "r = Inr () \<and> steady s' i e dl"
proof -
  define Q where "Q = (\<lambda>res :: unit result. fst res = Inr () \<and> steady (fst (snd res)) i e dl)"
  have "Q (r, s', tr)"
  proof (rule call_handlers_rule [OF run, where I = "\<lambda>j s. steady s i e dl" and Q = Q])
    show "steady s i e dl" by (rule assms(6))
  next
    fix j s regs func args kwargs v s1
    assume "steady s i e dl" "invoke call func (ea @ args) kwargs s = (Inr v, s1)"
    with invoke_steady [OF assms(1-5), of s i e dl func "ea @ args" kwargs]
    show "steady s1 i e dl" by auto
  next
    fix j s regs func args kwargs e' s1
    assume "steady s i e dl" "invoke call func (ea @ args) kwargs s = (Inl e', s1)"
    with invoke_steady [OF assms(1-5), of s i e dl func "ea @ args" kwargs]
    show "Q (Inl e', s1, [])" by auto
  next
    fix j s
    assume "steady s i e dl"
    then show "Q (Inr (), s, [])" by (simp add: Q_def)
  qed
  then show ?thesis by (simp add: Q_def)
qed

lemma fire_event_steady:
  assumes "never_raises call" "never_terminates call" "keeps_attr ''iteration'' call"
    "keeps_attr ''epoch'' call" "keeps_attr ''dataloader'' call" "steady s i e dl"
    and run: "fire_event call ev ea s = Some (r, s', tr)"
  shows "r = Inr () \<and> steady s' i e dl"
  using run
proof (cases rule: fire_event_cases)
  case absent
  with assms(6) show ?thesis by simp
next
  case (returned regs)
  from call_handlers_steady [OF assms(1-6) returned(2)] returned(3) show ?thesis by simp
next
  case (raised regs e')
  from call_handlers_steady [OF assms(1-6) raised(2)] show ?thesis by simp
qed

lemma set_state_attr_steady:
  assumes "steady s i e dl" "k \<noteq> ''iteration''" "k \<noteq> ''epoch''" "k \<noteq> ''dataloader''"
  shows "\<exists>s'. set_state_attr k v s = (Inr (), s', []) \<and> steady s' i e dl"
proof -
  from assms(1) obtain st where st: "state s = Some st"
    by (auto simp: steady_def dest: attr_SomeD)
  with assms show ?thesis
    by (simp add: set_state_attr_Some steady_def attr_def)
qed

lemma incr_iteration_steady:
  assumes "steady s i e dl"
  shows "\<exists>s'. incr_state_attr ''iteration'' s = (Inr (), s', []) \<and> steady s' (i + 1) e dl"
proof -
  from assms obtain st where st: "state s = Some st" "st ''iteration'' = Some (PInt i)"
    by (auto simp: steady_def dest: attr_SomeD)
  with assms show ?thesis
    by (simp add: incr_state_attr_Some steady_def attr_def)
qed

lemma incr_epoch_steady:
  assumes "steady s i e dl"
  shows "\<exists>s'. incr_state_attr ''epoch'' s = (Inr (), s', []) \<and> steady s' i (e + 1) dl"
proof -
  from assms obtain st where st: "state s = Some st" "st ''epoch'' = Some (PInt e)"
    by (auto simp: steady_def attr_def split: option.splits)
  with assms show ?thesis
    by (simp add: incr_state_attr_Some steady_def attr_def)
qed

lemma process_steady:
  assumes "never_raises call" "never_terminates call" "keeps_attr ''iteration'' call"
    "keeps_attr ''epoch'' call" "keeps_attr ''dataloader'' call" "steady s i e dl"
  shows "\<exists>v s'. call_process_function call b s = (Inr v, s', []) \<and> steady s' i e dl"
proof -
  from invoke_steady [OF assms, of "process_function s" "[b]" "[]"] show ?thesis
    by (auto simp: call_process_function_def)
qed

lemma for_batches_steady:
  assumes "never_raises call" "never_terminates call" "keeps_attr ''iteration'' call"
    "keeps_attr ''epoch'' call" "keeps_attr ''dataloader'' call"
  shows "steady s i e dl \<Longrightarrow> for_batches call bs None s = Some (r, s', tr) \<Longrightarrow>
         r = Inr () \<and> steady s' (i + int (length bs)) e dl"
proof (induction bs arbitrary: s i tr)
  case Nil
  then show ?case by (simp add: ret_def)
next
  case (Cons b bs)
  from set_state_attr_steady [OF Cons.prems(1), of "''batch''" b] obtain s1 where
    1: "set_state_attr ''batch'' b s = (Inr (), s1, [])" "steady s1 i e dl" by auto
  from incr_iteration_steady [OF 1(2)] obtain s2 where
    2: "incr_state_attr ''iteration'' s1 = (Inr (), s2, [])" "steady s2 (i + 1) e dl" by auto
  from Cons.prems(2) 1(1) 2(1) have
    "and_then (fire_event call ITERATION_STARTED [] s2) (\<lambda>_ self.
     and_then (Some (call_process_function call b self)) (\<lambda>output self.
     and_then (Some (set_state_attr ''output'' output self)) (\<lambda>_ self.
     and_then (fire_event call ITERATION_COMPLETED [] self) (\<lambda>_ self.
       if should_terminate self then Some (ret () self)
       else for_batches call bs None self)))) = Some (r, s', tr)"
    by (simp only: for_batches.simps and_then_Inr_nil)
  then show ?case
  proof (cases rule: and_then_cases)
    case (raised e')
    from fire_event_steady [OF assms 2(2) raised(1)] show ?thesis by simp
  next
    case (went_on u s3 t3 ta)
    from fire_event_steady [OF assms 2(2) went_on(1)] have 3: "steady s3 (i + 1) e dl" by simp
    from process_steady [OF assms 3, of b] obtain v s4 where
      4: "call_process_function call b s3 = (Inr v, s4, [])" "steady s4 (i + 1) e dl" by auto
    from set_state_attr_steady [OF 4(2), of "''output''" v] obtain s5 where
      5: "set_state_attr ''output'' v s4 = (Inr (), s5, [])" "steady s5 (i + 1) e dl" by auto
    from went_on(2) 4(1) 5(1) have
      "and_then (fire_event call ITERATION_COMPLETED [] s5) (\<lambda>_ self.
         if should_terminate self then Some (ret () self)
         else for_batches call bs None self) = Some (r, s', ta)"
      by (simp only: and_then_Inr_nil)
    then show ?thesis
    proof (cases rule: and_then_cases)
      case (raised e')
      from fire_event_steady [OF assms 5(2) raised(1)] show ?thesis by simp
    next
      case (went_on u' s6 t6 tb)
      from fire_event_steady [OF assms 5(2) went_on(1)] have 6: "steady s6 (i + 1) e dl" by simp
      then have "\<not> should_terminate s6" by (simp add: steady_def)
      with went_on(2) have "for_batches call bs None s6 = Some (r, s', tb)" by simp
      from Cons.IH [OF 6 this] show ?thesis by (simp add: add.assoc)
    qed
  qed
qed

lemma run_once_steady:
  assumes "never_raises call" "never_terminates call" "keeps_attr ''iteration'' call"
    "keeps_attr ''epoch'' call" "keeps_attr ''dataloader'' call"
    "steady s i e dl" "py_iter dl = Inr (bs, None)"
    and run: "run_once_on_dataset call s = Some (r, s', tr)"
  shows "r = Inr (Some ()) \<and> steady s' (i + int (length bs)) e dl"
proof -
  from assms(6) have dl: "get_state_attr ''dataloader'' s = (Inr dl, s, [])"
    by (simp add: steady_def get_state_attr_Some)
  from run dl assms(7) have "try_except
       (and_then (for_batches call bs None s) (\<lambda>_ self. Some (ret (Some ()) self)))
       (\<lambda>e self.
          and_then (Some (emit (LogError e) self)) (\<lambda>_ self.
          and_then (handle_exception call e self) (\<lambda>_ self. Some (ret None self))))
     = Some (r, s', tr)"
    by (simp only: run_once_on_dataset_def and_then_Inr_nil sum.case prod.case)
  then show ?thesis
  proof (cases rule: try_except_cases)
    case (returned v)
    from returned(1) show ?thesis
    proof (cases rule: and_then_cases)
      case (raised e')
      with returned show ?thesis by simp
    next
      case (went_on u s1 t1 t2)
      from for_batches_steady [OF assms(1-6) went_on(1)] went_on(2) returned(2)
      show ?thesis by (auto simp: ret_def)
    qed
  next
    case (caught e' s1 t1 t2)
    from caught(1) show ?thesis
    proof (cases rule: and_then_cases)
      case (raised e'')
      from for_batches_steady [OF assms(1-6) raised(1)] show ?thesis by simp
    next
      case (went_on u s2 t3 t4)
      then show ?thesis by (simp add: ret_def)
    qed
  qed
qed

lemma epoch_body_steady:
  assumes "never_raises call" "never_terminates call" "keeps_attr ''iteration'' call"
    "keeps_attr ''epoch'' call" "keeps_attr ''dataloader'' call"
    "steady s i e dl" "py_iter dl = Inr (bs, None)"
    and run: "epoch_body call s = Some (r, s', tr)"
  shows "r = Inr False \<and> steady s' (i + int (length bs)) (e + 1) dl"
proof -
  from incr_epoch_steady [OF assms(6)] obtain s1 where
    1: "incr_state_attr ''epoch'' s = (Inr (), s1, [])" "steady s1 i (e + 1) dl" by auto
  from run have
    "and_then (fire_event call EPOCH_STARTED [] s1) (\<lambda>_ self.
     and_then (run_once_on_dataset call self) (\<lambda>times self.
       case times of
         None \<Rightarrow> Some (raise (TypeError ''cannot unpack non-iterable NoneType object'') self)
       | Some _ \<Rightarrow>
           and_then (Some (get_state_attr ''epoch'' self)) (\<lambda>_ self.
             if should_terminate self then Some (ret True self)
             else and_then (fire_event call EPOCH_COMPLETED [] self)
                    (\<lambda>_ self. Some (ret False self))))) = Some (r, s', tr)"
    by (simp only: epoch_body_def 1(1) and_then_Inr_nil)
  then show ?thesis
  proof (cases rule: and_then_cases)
    case (raised e')
    from fire_event_steady [OF assms(1-5) 1(2) raised(1)] show ?thesis by simp
  next
    case (went_on u s2 t2 ta)
    from fire_event_steady [OF assms(1-5) 1(2) went_on(1)]
    have 2: "steady s2 i (e + 1) dl" by simp
    from went_on(2) show ?thesis
    proof (cases rule: and_then_cases)
      case (raised e')
      from run_once_steady [OF assms(1-5) 2 assms(7) raised(1)] show ?thesis by simp
    next
      case (went_on times s3 t3 tb)
      from run_once_steady [OF assms(1-5) 2 assms(7) went_on(1)]
      have 3: "times = Some ()" "steady s3 (i + int (length bs)) (e + 1) dl" by simp_all
      from 3(2) have ep: "get_state_attr ''epoch'' s3 = (Inr (PInt (e + 1)), s3, [])"
        by (simp add: steady_def get_state_attr_Some)
      from 3(2) have nt: "\<not> should_terminate s3" by (simp add: steady_def)
      from went_on(2) have
        "and_then (fire_event call EPOCH_COMPLETED [] s3) (\<lambda>_ self. Some (ret False self))
           = Some (r, s', tb)"
        by (simp only: 3(1) option.case ep and_then_Inr_nil nt if_False)
      then show ?thesis
      proof (cases rule: and_then_cases)
        case (raised e')
        from fire_event_steady [OF assms(1-5) 3(2) raised(1)] show ?thesis by simp
      next
        case (went_on u' s4 t4 tc)
        from fire_event_steady [OF assms(1-5) 3(2) went_on(1)] went_on(2)
        show ?thesis by (auto simp: ret_def)
      qed
    qed
  qed
qed

lemma while_epochs_steady:
  assumes "never_raises call" "never_terminates call" "keeps_attr ''iteration'' call"
    "keeps_attr ''epoch'' call" "keeps_attr ''dataloader'' call"
    "py_iter dl = Inr (bs, None)" "steady s i e dl" "e \<le> N"
    and run: "while_epochs call N s tr = Some (r, s', tr')"
  shows "r = Inr () \<and> steady s' (i + (N - e) * int (length bs)) N dl"
proof -
  define I where "I = (\<lambda>s (t :: action list).
     \<exists>e'. e \<le> e' \<and> e' \<le> N \<and> steady s (i + (e' - e) * int (length bs)) e' dl)"
  define Q where "Q = (\<lambda>res :: unit result.
     fst res = Inr () \<and> steady (fst (snd res)) (i + (N - e) * int (length bs)) N dl)"
  have "Q (r, s', tr')"
  proof (rule while_epochs_rule [OF run, where I = I and Q = Q])
    from assms(7,8) show "I s tr" unfolding I_def by (intro exI [of _ e]) simp
  next
    fix s t s2 t2
    assume a: "I s t" "epoch_less N s = (Inr True, s, [])" "\<not> should_terminate s"
      "epoch_body call s = Some (Inr False, s2, t2)"
    from a(1) obtain e' where e': "e \<le> e'" "e' \<le> N"
      "steady s (i + (e' - e) * int (length bs)) e' dl" unfolding I_def by blast
    from e'(3) have "epoch_less N s = (Inr (e' < N), s, [])"
      by (simp add: steady_def epoch_less_Some)
    with a(2) have lt: "e' < N" by simp
    from epoch_body_steady [OF assms(1-5) e'(3) assms(6) a(4)]
    have "steady s2 (i + (e' - e) * int (length bs) + int (length bs)) (e' + 1) dl" by simp
    moreover have "i + (e' - e) * int (length bs) + int (length bs)
        = i + (e' + 1 - e) * int (length bs)" by (simp add: algebra_simps)
    ultimately have "steady s2 (i + (e' + 1 - e) * int (length bs)) (e' + 1) dl" by simp
    with e'(1) lt show "I s2 (t @ t2)" unfolding I_def by (intro exI [of _ "e' + 1"]) simp
  next
    fix s t e0
    assume a: "I s t" "epoch_less N s = (Inl e0, s, [])"
    from a(1) obtain e' where e': "steady s (i + (e' - e) * int (length bs)) e' dl"
      unfolding I_def by blast
    then have "epoch_less N s = (Inr (e' < N), s, [])"
      by (simp add: steady_def epoch_less_Some)
    with a(2) show "Q (Inl e0, s, t)" by simp
  next
    fix s t lt
    assume a: "I s t" "epoch_less N s = (Inr lt, s, [])" "\<not> (lt \<and> \<not> should_terminate s)"
    from a(1) obtain e' where e': "e \<le> e'" "e' \<le> N"
      "steady s (i + (e' - e) * int (length bs)) e' dl" unfolding I_def by blast
    from e'(3) have "epoch_less N s = (Inr (e' < N), s, [])"
      by (simp add: steady_def epoch_less_Some)
    with a(2) have "lt = (e' < N)" by simp
    moreover from e'(3) have "\<not> should_terminate s" by (simp add: steady_def)
    ultimately have "e' = N" using a(3) e'(2) by simp
    with e'(3) show "Q (Inr (), s, t)" by (simp add: Q_def)
  next
    fix s t e0 s2 t2
    assume a: "I s t" "epoch_body call s = Some (Inl e0, s2, t2)"
    from a(1) obtain e' where e': "steady s (i + (e' - e) * int (length bs)) e' dl"
      unfolding I_def by blast
    from epoch_body_steady [OF assms(1-5) e' assms(6) a(2)] show "Q (Inl e0, s2, t @ t2)"
      by simp
  next
    fix s t s2 t2
    assume a: "I s t" "epoch_body call s = Some (Inr True, s2, t2)"
    from a(1) obtain e' where e': "steady s (i + (e' - e) * int (length bs)) e' dl"
      unfolding I_def by blast
    from epoch_body_steady [OF assms(1-5) e' assms(6) a(2)] show "Q (Inr (), s2, t @ t2)"
      by simp
  qed
  then show ?thesis by (simp add: Q_def)
qed

subsection \<open>Runs that return\<close>

lemma for_batches_returns:
  assumes "never_registers call"
  shows "for_batches call bs final s \<noteq> None"
proof (induction bs arbitrary: s)
  case Nil
  show ?case by (cases final) simp_all
next
  case (Cons b bs)
  show ?case
    unfolding for_batches.simps
    by (intro and_then_returns fire_event_returns [OF assms])
      (simp_all del: not_None_eq add: Cons.IH)
qed

lemma handle_exception_returns:
  assumes "never_registers call"
  shows "handle_exception call e s \<noteq> None"
  using fire_event_returns [OF assms] by (simp del: not_None_eq add: handle_exception_def)

lemma run_once_on_dataset_returns:
  assumes "never_registers call"
  shows "run_once_on_dataset call s \<noteq> None"
  unfolding run_once_on_dataset_def
proof (intro try_except_returns and_then_returns)
  fix v s
  show "(case py_iter v of Inl e \<Rightarrow> Some (raise e s)
         | Inr (batches, final) \<Rightarrow>
             and_then (for_batches call batches final s) (\<lambda>_ self. Some (ret (Some ()) self)))
        \<noteq> None"
  proof (cases "py_iter v")
    case (Inl e)
    then show ?thesis by simp
  next
    case (Inr p)
    obtain batches final where "p = (batches, final)" by (cases p)
    with Inr for_batches_returns [OF assms, of batches final s] show ?thesis
      by (simp del: not_None_eq add: and_then_returns)
  qed
qed (simp_all del: not_None_eq add: and_then_returns handle_exception_returns [OF assms])

lemma epoch_body_returns:
  assumes "never_registers call"
  shows "epoch_body call s \<noteq> None"
  unfolding epoch_body_def
proof (intro and_then_returns)
  fix times s
  show "(case times of
           None \<Rightarrow> Some (raise (TypeError ''cannot unpack non-iterable NoneType object'') s)
         | Some _ \<Rightarrow>
             and_then (Some (get_state_attr ''epoch'' s)) (\<lambda>_ self.
               if should_terminate self then Some (ret True self)
               else and_then (fire_event call EPOCH_COMPLETED [] self)
                      (\<lambda>_ self. Some (ret False self)))) \<noteq> None"
  proof (cases times)
    case None
    then show ?thesis by simp
  next
    case (Some u)
    have "and_then (Some (get_state_attr ''epoch'' s)) (\<lambda>_ self.
               if should_terminate self then Some (ret True self)
               else and_then (fire_event call EPOCH_COMPLETED [] self)
                      (\<lambda>_ self. Some (ret False self))) \<noteq> None"
      by (intro and_then_returns)
        (simp_all del: not_None_eq add: and_then_returns fire_event_returns [OF assms])
    with Some show ?thesis by simp
  qed
qed (simp_all del: not_None_eq
      add: fire_event_returns [OF assms] run_once_on_dataset_returns [OF assms])

lemma while_epochs_returns:
  assumes "never_raises call" "never_terminates call" "keeps_attr ''iteration'' call"
    "keeps_attr ''epoch'' call" "keeps_attr ''dataloader'' call" "never_registers call"
    "py_iter dl = Inr (bs, None)"
  shows "steady s i e dl \<Longrightarrow> nat (N - e) = d \<Longrightarrow> while_epochs call N s tr \<noteq> None"
proof (induction d arbitrary: s i e tr)
  case 0
  from 0(1) have el: "epoch_less N s = (Inr (e < N), s, [])"
    by (simp add: steady_def epoch_less_Some)
  from 0(2) have "\<not> e < N" by simp
  with el show ?case by (subst while_epochs.simps) simp
next
  case (Suc d)
  from Suc(2) have el: "epoch_less N s = (Inr (e < N), s, [])"
    by (simp add: steady_def epoch_less_Some)
  from Suc(3) have lt: "e < N" by simp
  from Suc(2) have nt: "\<not> should_terminate s" by (simp add: steady_def)
  from epoch_body_returns [OF assms(6), of s] obtain r s2 t2 where
    eb: "epoch_body call s = Some (r, s2, t2)" by (cases "epoch_body call s") auto
  from epoch_body_steady [OF assms(1-5) Suc(2) assms(7) eb]
  have 2: "r = Inr False" "steady s2 (i + int (length bs)) (e + 1) dl" by simp_all
  from Suc(3) have "nat (N - (e + 1)) = d" by simp
  from Suc.IH [OF 2(2) this] have "while_epochs call N s2 (tr @ t2) \<noteq> None" .
  with el lt nt eb 2(1) show ?case by (subst while_epochs.simps) simp
qed


lemma run_from_steady:
  assumes "never_raises call" "never_terminates call" "keeps_attr ''iteration'' call"
    "keeps_attr ''epoch'' call" "keeps_attr ''dataloader'' call"
    "py_iter dl = Inr (bs, None)" "steady s 0 0 dl" "0 \<le> N"
    and run: "run_from call N s = Some (r, s', tr)"
  shows "\<exists>st. r = Inr (Some st) \<and> st ''iteration'' = Some (PInt (N * int (length bs))) \<and>
           st ''epoch'' = Some (PInt N)"
proof -
  have body: "rt = Inr () \<and> steady s2 (N * int (length bs)) N dl"
    if rt: "run_try call N s = Some (rt, s2, t2)" for rt s2 t2
  proof -
    from rt obtain r1 s1 t1 where
      1: "fire_event call STARTED [] s = Some (r1, s1, t1)"
      by (cases "fire_event call STARTED [] s") (auto simp: run_try_def)
    from fire_event_steady [OF assms(1-5) assms(7) 1]
    have s1: "r1 = Inr ()" "steady s1 0 0 dl" by simp_all
    from rt 1 s1(1) have
      "and_then (while_epochs call N s1 t1) (\<lambda>_. fire_event call COMPLETED [])
         = Some (rt, s2, t2)"
      by (simp add: run_try_def)
    then show ?thesis
    proof (cases rule: and_then_cases)
      case (raised e')
      from while_epochs_steady [OF assms(1-6) s1(2) assms(8) raised(1)] show ?thesis by simp
    next
      case (went_on u s3 t3 t4)
      from while_epochs_steady [OF assms(1-6) s1(2) assms(8) went_on(1)]
      have "steady s3 (N * int (length bs)) N dl" by simp
      from fire_event_steady [OF assms(1-5) this went_on(2)] show ?thesis .
    qed
  qed
  from run have
    "and_then
       (try_except (run_try call N s)
          (\<lambda>e self. and_then (Some (emit (LogError e) self)) (\<lambda>_. handle_exception call e)))
       (\<lambda>_ self. Some (ret (state self) self)) = Some (r, s', tr)"
    by (simp only: run_from_def)
  then show ?thesis
  proof (cases rule: and_then_cases)
    case (raised e')
    from raised(1) show ?thesis
    proof (cases rule: try_except_cases)
      case (returned v)
      then show ?thesis by simp
    next
      case (caught e'' s1 t1 t2)
      from body [OF caught(1)] show ?thesis by simp
    qed
  next
    case (went_on u s3 t3 t4)
    from went_on(1) have "steady s3 (N * int (length bs)) N dl"
    proof (cases rule: try_except_cases)
      case (returned v)
      from body [OF returned(1)] show ?thesis by simp
    next
      case (caught e'' s1 t1 t2)
      from body [OF caught(1)] show ?thesis by simp
    qed
    then obtain st where st: "state s3 = Some st"
      "st ''iteration'' = Some (PInt (N * int (length bs)))" "st ''epoch'' = Some (PInt N)"
      by (auto simp: steady_def attr_def split: option.splits)
    from went_on(2) st(1) have "r = Inr (Some st)" by (simp add: ret_def)
    with st show ?thesis by simp
  qed
qed

lemma run_from_returns:
  assumes "never_raises call" "never_terminates call" "keeps_attr ''iteration'' call"
    "keeps_attr ''epoch'' call" "keeps_attr ''dataloader'' call" "never_registers call"
    "py_iter dl = Inr (bs, None)" "steady s 0 0 dl"
  shows "run_from call N s \<noteq> None"
proof -
  have "run_try call N s \<noteq> None"
  proof -
    from fire_event_returns [OF assms(6), of STARTED "[]" s] obtain r1 s1 t1 where
      1: "fire_event call STARTED [] s = Some (r1, s1, t1)"
      by (cases "fire_event call STARTED [] s") auto
    from fire_event_steady [OF assms(1-5) assms(8) 1]
    have s1: "r1 = Inr ()" "steady s1 0 0 dl" by simp_all
    from while_epochs_returns [OF assms(1-7) s1(2) refl]
    have "while_epochs call N s1 t1 \<noteq> None" .
    then have "and_then (while_epochs call N s1 t1) (\<lambda>_. fire_event call COMPLETED []) \<noteq> None"
      by (rule and_then_returns) (rule fire_event_returns [OF assms(6)])
    with 1 s1(1) show ?thesis by (simp del: not_None_eq add: run_try_def)
  qed
  then have "try_except (run_try call N s)
          (\<lambda>e self. and_then (Some (emit (LogError e) self)) (\<lambda>_. handle_exception call e))
        \<noteq> None"
  proof (rule try_except_returns)
    fix e s
    show "and_then (Some (emit (LogError e) s)) (\<lambda>_. handle_exception call e) \<noteq> None"
      by (rule and_then_returns) (simp_all del: not_None_eq add: handle_exception_returns [OF assms(6)])
  qed
  then show ?thesis
    unfolding run_from_def by (rule and_then_returns) simp
qed

text \<open>
  C1. No callable raises, none sets the termination flag, and none changes the
  attributes \<open>iteration\<close>, \<open>epoch\<close> and \<open>dataloader\<close> of the state; the flag is not
  set when \<^verbatim>\<open>run\<close> is called; the dataset yields \<open>B\<close> batches and then stops. Then for
  \<open>max_epochs = N \<ge> 1\<close>, whenever \<^verbatim>\<open>run(data, N)\<close> returns or raises, it returns, what
  it returns is the state, and in it \<open>iteration = N * B\<close> and \<open>epoch = N\<close>. The call
  does come to an end when, moreover, no callable registers a handler (a handler that
  registers a handler for its own event at every call keeps its dispatch running for
  ever).
\<close>

theorem run_counts:
  assumes "never_raises call" "never_terminates call" "keeps_attr ''iteration'' call"
    "keeps_attr ''epoch'' call" "keeps_attr ''dataloader'' call"
    and "\<not> should_terminate self" and "1 \<le> N" and "py_iter data = Inr (bs, None)"
  shows "(\<forall>r self' tr. run call data N self = Some (r, self', tr) \<longrightarrow>
            (\<exists>st. r = Inr (Some st) \<and>
                  st ''iteration'' = Some (PInt (N * int (length bs))) \<and>
                  st ''epoch'' = Some (PInt N))) \<and>
         (never_registers call \<longrightarrow>
            (\<exists>st self' tr. run call data N self = Some (Inr (Some st), self', tr) \<and>
               st ''iteration'' = Some (PInt (N * int (length bs))) \<and>
               st ''epoch'' = Some (PInt N)))"
proof -
  define s0 where "s0 = self\<lparr>state := Some
      [''iteration'' \<mapsto> PInt 0, ''output'' \<mapsto> PNone, ''batch'' \<mapsto> PNone,
       ''dataloader'' \<mapsto> data, ''epoch'' \<mapsto> PInt 0,
       ''max_epochs'' \<mapsto> PInt N, ''metrics'' \<mapsto> PDict []]\<rparr>"
  have run: "run call data N self = run_from call N s0"
    by (simp add: run_def new_state_eq s0_def)
  have s0: "steady s0 0 0 data"
    using assms(6) by (simp add: s0_def steady_def)
  from assms(7) have N: "0 \<le> N" by simp
  have part: "\<exists>st. r = Inr (Some st) \<and>
                  st ''iteration'' = Some (PInt (N * int (length bs))) \<and>
                  st ''epoch'' = Some (PInt N)"
    if "run call data N self = Some (r, self', tr)" for r self' tr
    using run_from_steady [OF assms(1-5) assms(8) s0 N] that unfolding run by blast
  have "\<exists>st self' tr. run call data N self = Some (Inr (Some st), self', tr) \<and>
               st ''iteration'' = Some (PInt (N * int (length bs))) \<and>
               st ''epoch'' = Some (PInt N)" if nr: "never_registers call"
  proof -
    from run_from_returns [OF assms(1-5) nr assms(8) s0, of N] obtain r self' tr where
      res: "run call data N self = Some (r, self', tr)"
      unfolding run by (cases "run_from call N s0") auto
    from part [OF res] res show ?thesis by auto
  qed
  with part show ?thesis by blast
qed

theorem run_counts_witness:
  "never_raises quiet \<and> never_terminates quiet \<and> keeps_attr ''iteration'' quiet \<and>
   keeps_attr ''epoch'' quiet \<and> keeps_attr ''dataloader'' quiet \<and> never_registers quiet \<and>
   \<not> should_terminate engine0 \<and> (1::int) \<le> 2 \<and>
   py_iter (PList [PInt 1, PInt 2, PInt 3]) = Inr ([PInt 1, PInt 2, PInt 3], None) \<and>
   (\<exists>st self' tr. run quiet (PList [PInt 1, PInt 2, PInt 3]) 2 engine0 = Some (Inr (Some st), self', tr) \<and>
      st ''iteration'' = Some (PInt 6) \<and> st ''epoch'' = Some (PInt 2))"
proof -
  have h: "never_raises quiet" "never_terminates quiet" "keeps_attr ''iteration'' quiet"
    "keeps_attr ''epoch'' quiet" "keeps_attr ''dataloader'' quiet"
    by (simp_all add: never_raises_def never_terminates_def keeps_attr_def quiet_def invoke_def)
  have r: "never_registers quiet" by (simp add: never_registers_def quiet_def invoke_def)
  have e: "\<not> should_terminate engine0" by (simp add: engine0_def)
  have n: "(1::int) \<le> 2" by simp
  have d: "py_iter (PList [PInt 1, PInt 2, PInt 3]) = Inr ([PInt 1, PInt 2, PInt 3], None)" by simp
  from run_counts [OF h e n d] h r e d show ?thesis by simp
qed


section \<open>What a run leaves as it is\<close>

lemma engines_simps [simp]:
  "engines [] = []"
  "engines (Fire ev ea s # tr) = s # engines tr"
  "engines (Done ev s # tr) = s # engines tr"
  "engines (LogError e # tr) = engines tr"
  "engines (tr @ tr') = engines tr @ engines tr'"
  by (simp_all add: engines_def)

lemma framedD:
  assumes "framed R"
  shows "R x x" "R x y \<Longrightarrow> R y z \<Longrightarrow> R x z" "R x (x\<lparr>state := st\<rparr>)"
  using assms unfolding framed_def by blast+

lemma sorted_wrt_join:
  assumes "framed R" "sorted_wrt R (s # xs @ [s1])" "sorted_wrt R (s1 # ys @ [s2])"
  shows "sorted_wrt R (s # xs @ ys @ [s2])"
proof -
  have t: "R x z" if "R x s1" "R s1 z" for x z
    using framedD(2) [OF assms(1)] that by blast
  from assms(2,3) show ?thesis
    by (auto simp: sorted_wrt_append intro: t)
qed

lemma along_I:
  assumes "\<And>r s' tr. m = Some (r, s', tr) \<Longrightarrow> sorted_wrt R (s # engines tr @ [s'])"
  shows "along R s m"
  using assms unfolding along_def by blast

lemma along_D:
  assumes "along R s m" "m = Some (r, s', tr)"
  shows "sorted_wrt R (s # engines tr @ [s'])"
  using assms unfolding along_def by blast

lemma along_None [simp]: "along R s None"
  by (simp add: along_def)

lemma along_ret: "framed R \<Longrightarrow> along R s (Some (ret v s))"
  by (simp add: along_def ret_def framedD(1))

lemma along_raise: "framed R \<Longrightarrow> along R s (Some (raise e s))"
  by (simp add: along_def raise_def framedD(1))

lemma along_LogError: "framed R \<Longrightarrow> along R s (Some (emit (LogError e) s))"
  by (simp add: along_def emit_def framedD(1))

lemma along_and_then:
  assumes "framed R" "along R s m" "\<And>v s1. along R s1 (f v s1)"
  shows "along R s (and_then m f)"
proof (rule along_I)
  fix r s' tr
  assume "and_then m f = Some (r, s', tr)"
  then show "sorted_wrt R (s # engines tr @ [s'])"
  proof (cases rule: and_then_cases)
    case (raised e)
    from along_D [OF assms(2) raised(1)] show ?thesis .
  next
    case (went_on v s1 t1 t2)
    from sorted_wrt_join [OF assms(1) along_D [OF assms(2) went_on(1)]
        along_D [OF assms(3) went_on(2)]] went_on(3)
    show ?thesis by simp
  qed
qed

lemma along_try_except:
  assumes "framed R" "along R s m" "\<And>e s1. along R s1 (h e s1)"
  shows "along R s (try_except m h)"
proof (rule along_I)
  fix r s' tr
  assume "try_except m h = Some (r, s', tr)"
  then show "sorted_wrt R (s # engines tr @ [s'])"
  proof (cases rule: try_except_cases)
    case (returned v)
    from along_D [OF assms(2) returned(1)] show ?thesis .
  next
    case (caught e s1 t1 t2)
    from sorted_wrt_join [OF assms(1) along_D [OF assms(2) caught(1)]
        along_D [OF assms(3) caught(2)]] caught(3)
    show ?thesis by simp
  qed
qed

lemma along_get_state_attr: "framed R \<Longrightarrow> along R s (Some (get_state_attr k s))"
  by (auto simp: along_def framedD(1) dest!: get_state_attr_same)

lemma along_set_state_attr: "framed R \<Longrightarrow> along R s (Some (set_state_attr k v s))"
  by (auto simp: along_def set_state_attr_def ret_def raise_def framedD(1,3)
      split: option.splits)

lemma along_incr_state_attr: "framed R \<Longrightarrow> along R s (Some (incr_state_attr k s))"
  by (auto simp: along_def incr_state_attr_def get_state_attr_def set_state_attr_def
      then_do_def ret_def raise_def framedD(1,3) split: option.splits pyval.splits)

lemma along_call_process_function:
  assumes "framed R" "obeys call R"
  shows "along R s (Some (call_process_function call b s))"
proof -
  from assms(2) have "R s (snd (invoke call (process_function s) [b] [] s))"
    unfolding obeys_def by blast
  then show ?thesis
    by (auto simp: along_def call_process_function_def framedD(1) [OF assms(1)]
        split: prod.splits sum.splits)
qed

lemma call_handlers_step:
  assumes "framed R" "obeys call R"
    and run: "call_handlers call ev ea i s = Some (r, s', tr)"
  shows "R s s'"
proof -
  define Q where "Q = (\<lambda>res :: unit result. R s (fst (snd res)))"
  have "Q (r, s', tr)"
  proof (rule call_handlers_rule [OF run, where I = "\<lambda>j x. R s x" and Q = Q])
    show "R s s" by (rule framedD(1) [OF assms(1)])
  next
    fix j x regs func args kwargs v x'
    assume "R s x" "invoke call func (ea @ args) kwargs x = (Inr v, x')"
    moreover from assms(2) have "R x (snd (invoke call func (ea @ args) kwargs x))"
      unfolding obeys_def by blast
    ultimately show "R s x'" using framedD(2) [OF assms(1)] by auto
  next
    fix j x regs func args kwargs e x'
    assume "R s x" "invoke call func (ea @ args) kwargs x = (Inl e, x')"
    moreover from assms(2) have "R x (snd (invoke call func (ea @ args) kwargs x))"
      unfolding obeys_def by blast
    ultimately have "R s x'" using framedD(2) [OF assms(1)] by auto
    then show "Q (Inl e, x', [])" by (simp add: Q_def)
  next
    fix j x
    assume "R s x"
    then show "Q (Inr (), x, [])" by (simp add: Q_def)
  qed
  then show ?thesis by (simp add: Q_def)
qed

lemma along_fire_event:
  assumes "framed R" "obeys call R"
  shows "along R s (fire_event call ev ea s)"
proof (rule along_I)
  fix r s' tr
  assume "fire_event call ev ea s = Some (r, s', tr)"
  then show "sorted_wrt R (s # engines tr @ [s'])"
  proof (cases rule: fire_event_cases)
    case absent
    then show ?thesis by (simp add: framedD(1) [OF assms(1)])
  next
    case (returned regs)
    from call_handlers_step [OF assms returned(2)] returned(4) show ?thesis
      by (simp add: framedD(1) [OF assms(1)])
  next
    case (raised regs e)
    from call_handlers_step [OF assms raised(2)] raised(4) show ?thesis
      by (simp add: framedD(1) [OF assms(1)])
  qed
qed

lemma along_handle_exception:
  assumes "framed R" "obeys call R"
  shows "along R s (handle_exception call e s)"
  unfolding handle_exception_def
  by (simp add: along_fire_event [OF assms] along_raise [OF assms(1)])

lemma along_for_batches:
  assumes "framed R" "obeys call R"
  shows "along R s (for_batches call bs final s)"
proof (induction bs arbitrary: s)
  case Nil
  show ?case
    by (cases final) (simp_all add: along_ret [OF assms(1)] along_raise [OF assms(1)])
next
  case (Cons b bs)
  show ?case
    unfolding for_batches.simps
    by (intro along_and_then [OF assms(1)] along_set_state_attr [OF assms(1)]
        along_incr_state_attr [OF assms(1)] along_fire_event [OF assms]
        along_call_process_function [OF assms])
      (simp add: along_ret [OF assms(1)] Cons.IH)
qed

lemma along_run_once_on_dataset:
  assumes "framed R" "obeys call R"
  shows "along R s (run_once_on_dataset call s)"
  unfolding run_once_on_dataset_def
proof (intro along_try_except [OF assms(1)] along_and_then [OF assms(1)]
    along_get_state_attr [OF assms(1)] along_LogError [OF assms(1)]
    along_handle_exception [OF assms])
  fix v s1
  show "along R s1 (case py_iter v of Inl e \<Rightarrow> Some (raise e s1)
         | Inr (batches, final) \<Rightarrow>
             and_then (for_batches call batches final s1) (\<lambda>_ self. Some (ret (Some ()) self)))"
  proof (cases "py_iter v")
    case (Inl e)
    then show ?thesis by (simp add: along_raise [OF assms(1)])
  next
    case (Inr p)
    obtain batches final where "p = (batches, final)" by (cases p)
    with Inr show ?thesis
      by (simp add: along_and_then [OF assms(1)] along_for_batches [OF assms]
          along_ret [OF assms(1)])
  qed
next
  fix u :: unit and s1 :: engine
  show "along R s1 (Some (ret (None :: unit option) s1))" by (rule along_ret [OF assms(1)])
qed

lemma along_epoch_body:
  assumes "framed R" "obeys call R"
  shows "along R s (epoch_body call s)"
  unfolding epoch_body_def
proof (intro along_and_then [OF assms(1)] along_incr_state_attr [OF assms(1)]
    along_fire_event [OF assms] along_run_once_on_dataset [OF assms])
  fix times s1
  show "along R s1 (case times of
           None \<Rightarrow> Some (raise (TypeError ''cannot unpack non-iterable NoneType object'') s1)
         | Some _ \<Rightarrow>
             and_then (Some (get_state_attr ''epoch'' s1)) (\<lambda>_ self.
               if should_terminate self then Some (ret True self)
               else and_then (fire_event call EPOCH_COMPLETED [] self)
                      (\<lambda>_ self. Some (ret False self))))"
  proof (cases times)
    case None
    then show ?thesis by (simp add: along_raise [OF assms(1)])
  next
    case (Some u)
    have "along R s1 (and_then (Some (get_state_attr ''epoch'' s1)) (\<lambda>_ self.
               if should_terminate self then Some (ret True self)
               else and_then (fire_event call EPOCH_COMPLETED [] self)
                      (\<lambda>_ self. Some (ret False self))))"
      by (intro along_and_then [OF assms(1)] along_get_state_attr [OF assms(1)])
        (simp add: along_and_then [OF assms(1)] along_fire_event [OF assms]
          along_ret [OF assms(1)])
    with Some show ?thesis by simp
  qed
qed

lemma while_epochs_along:
  assumes "framed R" "obeys call R"
    and start: "sorted_wrt R (s0 # engines tr0 @ [s])"
    and run: "while_epochs call n s tr0 = Some (r, s', tr)"
  shows "sorted_wrt R (s0 # engines tr @ [s'])"
proof -
  define I where "I = (\<lambda>x t. sorted_wrt R (s0 # engines t @ [x]))"
  define Q where "Q = (\<lambda>res :: unit result.
     sorted_wrt R (s0 # engines (snd (snd res)) @ [fst (snd res)]))"
  have body: "I x2 (t @ t2)" if "I x t" "epoch_body call x = Some (r2, x2, t2)" for x t r2 x2 t2
  proof -
    from along_D [OF along_epoch_body [OF assms(1,2)] that(2)]
    have "sorted_wrt R (x # engines t2 @ [x2])" .
    from sorted_wrt_join [OF assms(1) that(1) [unfolded I_def] this]
    show ?thesis by (simp add: I_def)
  qed
  have "Q (r, s', tr)"
  proof (rule while_epochs_rule [OF run, where I = I and Q = Q])
    from start show "I s tr0" by (simp add: I_def)
  next
    fix x t x2 t2
    assume "I x t" "epoch_body call x = Some (Inr False, x2, t2)"
    then show "I x2 (t @ t2)" by (rule body)
  next
    fix x t e
    assume "I x t"
    then show "Q (Inl e, x, t)" by (simp add: I_def Q_def)
  next
    fix x t lt
    assume "I x t"
    then show "Q (Inr (), x, t)" by (simp add: I_def Q_def)
  next
    fix x t e x2 t2
    assume "I x t" "epoch_body call x = Some (Inl e, x2, t2)"
    then have "I x2 (t @ t2)" by (rule body)
    then show "Q (Inl e, x2, t @ t2)" by (simp add: I_def Q_def)
  next
    fix x t x2 t2
    assume "I x t" "epoch_body call x = Some (Inr True, x2, t2)"
    then have "I x2 (t @ t2)" by (rule body)
    then show "Q (Inr (), x2, t @ t2)" by (simp add: I_def Q_def)
  qed
  then show ?thesis by (simp add: Q_def)
qed

lemma along_run_try:
  assumes "framed R" "obeys call R"
  shows "along R s (run_try call n s)"
proof (rule along_I)
  fix r s' tr
  assume rt: "run_try call n s = Some (r, s', tr)"
  then obtain r1 s1 t1 where 1: "fire_event call STARTED [] s = Some (r1, s1, t1)"
    by (cases "fire_event call STARTED [] s") (auto simp: run_try_def)
  note c1 = along_D [OF along_fire_event [OF assms] 1]
  show "sorted_wrt R (s # engines tr @ [s'])"
  proof (cases r1)
    case (Inl e)
    with rt 1 c1 show ?thesis by (auto simp: run_try_def)
  next
    case (Inr u)
    with rt 1 have
      "and_then (while_epochs call n s1 t1) (\<lambda>_. fire_event call COMPLETED [])
         = Some (r, s', tr)"
      by (simp add: run_try_def)
    then show ?thesis
    proof (cases rule: and_then_cases)
      case (raised e)
      from while_epochs_along [OF assms c1 raised(1)] show ?thesis .
    next
      case (went_on v s2 t2 t3)
      note c2 = while_epochs_along [OF assms c1 went_on(1)]
      note c3 = along_D [OF along_fire_event [OF assms] went_on(2)]
      from sorted_wrt_join [OF assms(1) c2 c3] went_on(3) show ?thesis by simp
    qed
  qed
qed

lemma along_run_from:
  assumes "framed R" "obeys call R"
  shows "along R s (run_from call n s)"
  unfolding run_from_def
  by (intro along_and_then [OF assms(1)] along_try_except [OF assms(1)]
      along_run_try [OF assms] along_LogError [OF assms(1)] along_handle_exception [OF assms]
      along_ret [OF assms(1)])

lemma along_run:
  assumes "framed R" "obeys call R"
  shows "along R s (run call data n s)"
proof (rule along_I)
  fix r s' tr
  assume "run call data n s = Some (r, s', tr)"
  then have rf: "run_from call n (s\<lparr>state := Some
      [''iteration'' \<mapsto> PInt 0, ''output'' \<mapsto> PNone, ''batch'' \<mapsto> PNone,
       ''dataloader'' \<mapsto> data, ''epoch'' \<mapsto> PInt 0,
       ''max_epochs'' \<mapsto> PInt n, ''metrics'' \<mapsto> PDict []]\<rparr>) = Some (r, s', tr)"
    by (simp add: run_def new_state_eq)
  define s0 where "s0 = s\<lparr>state := Some
      [''iteration'' \<mapsto> PInt 0, ''output'' \<mapsto> PNone, ''batch'' \<mapsto> PNone,
       ''dataloader'' \<mapsto> data, ''epoch'' \<mapsto> PInt 0,
       ''max_epochs'' \<mapsto> PInt n, ''metrics'' \<mapsto> PDict []]\<rparr>"
  have 0: "sorted_wrt R (s # [] @ [s0])"
    by (simp add: s0_def framedD(3) [OF assms(1)])
  from along_D [OF along_run_from [OF assms] rf]
  have 1: "sorted_wrt R (s0 # engines tr @ [s'])" by (simp add: s0_def)
  from sorted_wrt_join [OF assms(1) 0 1]
  show "sorted_wrt R (s # engines tr @ [s'])" by simp
qed


subsection \<open>A run of an engine that was asked to terminate\<close>

lemma call_handlers_never_raises:
  assumes "never_raises call"
    and inv: "\<And>f a k x. J x \<Longrightarrow> J (snd (invoke call f a k x))"
    and "J s"
    and run: "call_handlers call ev ea i s = Some (r, s', tr)"
  shows "r = Inr () \<and> J s'"
proof -
  define Q where "Q = (\<lambda>res :: unit result. fst res = Inr () \<and> J (fst (snd res)))"
  have nr: "fst (invoke call f a k x) \<noteq> Inl e" for f a k x e
    using assms(1) unfolding never_raises_def invoke_eq by (metis fst_conv sum.distinct(1))
  have "Q (r, s', tr)"
  proof (rule call_handlers_rule [OF run, where I = "\<lambda>j x. J x" and Q = Q])
    show "J s" by fact
  next
    fix j x regs func args kwargs v x'
    assume "J x" "invoke call func (ea @ args) kwargs x = (Inr v, x')"
    with inv [of x func "ea @ args" kwargs] show "J x'" by simp
  next
    fix j x regs func args kwargs e x'
    assume "invoke call func (ea @ args) kwargs x = (Inl e, x')"
    with nr [of func "ea @ args" kwargs x e] show "Q (Inl e, x', [])" by simp
  next
    fix j x
    assume "J x"
    then show "Q (Inr (), x, [])" by (simp add: Q_def)
  qed
  then show ?thesis by (simp add: Q_def)
qed

lemma fire_event_never_raises:
  assumes "never_raises call"
    and inv: "\<And>f a k x. J x \<Longrightarrow> J (snd (invoke call f a k x))"
    and "J s"
    and run: "fire_event call ev ea s = Some (r, s', tr)"
  shows "r = Inr () \<and> J s' \<and> tr = [Fire ev ea s, Done ev s']"
  using run
proof (cases rule: fire_event_cases)
  case absent
  with assms(3) show ?thesis by simp
next
  case (returned regs)
  from call_handlers_never_raises [of call J, OF assms(1) inv assms(3) returned(2)] returned(3,4)
  show ?thesis by simp
next
  case (raised regs e)
  from call_handlers_never_raises [of call J, OF assms(1) inv assms(3) raised(2)]
  show ?thesis by simp
qed

lemma run_from_terminated:
  assumes 1: "fire_event call STARTED [] s0 = Some (Inr (), s1, t1)"
    and "should_terminate s1" "attr s1 ''epoch'' = Some (PInt e)"
    and 2: "fire_event call COMPLETED [] s1 = Some (Inr (), s2, t2)"
  shows "run_from call N s0 = Some (Inr (state s2), s2, t1 @ t2)"
proof -
  from assms(2,3) have w: "while_epochs call N s1 t1 = Some (Inr (), s1, t1)"
    by (subst while_epochs.simps) (simp add: epoch_less_Some)
  from 1 w 2 have "run_try call N s0 = Some (Inr (), s2, t1 @ t2)"
    by (simp add: run_try_def)
  then show ?thesis by (simp add: run_from_def try_except_def ret_def)
qed

lemma run_from_not_None:
  assumes "run_from call N s0 = Some res"
  obtains r1 s1 t1 where "fire_event call STARTED [] s0 = Some (r1, s1, t1)"
proof (cases "fire_event call STARTED [] s0")
  case None
  then have "run_try call N s0 = None" by (simp add: run_try_def)
  then have "run_from call N s0 = None" by (simp add: run_from_def try_except_def)
  with assms show ?thesis by simp
next
  case (Some x)
  obtain r1 s1 t1 where "x = (r1, s1, t1)" by (cases x)
  with Some that show ?thesis by blast
qed

lemma run_from_not_None2:
  assumes "run_from call N s0 = Some res"
    and 1: "fire_event call STARTED [] s0 = Some (Inr (), s1, t1)"
    and "should_terminate s1" "attr s1 ''epoch'' = Some (PInt e)"
  obtains r2 s2 t2 where "fire_event call COMPLETED [] s1 = Some (r2, s2, t2)"
proof (cases "fire_event call COMPLETED [] s1")
  case None
  from assms(3,4) have w: "while_epochs call N s1 t1 = Some (Inr (), s1, t1)"
    by (subst while_epochs.simps) (simp add: epoch_less_Some)
  from 1 w None have "run_try call N s0 = None"
    by (simp add: run_try_def)
  then have "run_from call N s0 = None" by (simp add: run_from_def try_except_def)
  with assms(1) show ?thesis by simp
next
  case (Some x)
  obtain r2 s2 t2 where "x = (r2, s2, t2)" by (cases x)
  with Some that show ?thesis by blast
qed

text \<open>
  C9. \<^verbatim>\<open>run\<close> does not write \<^verbatim>\<open>should_terminate\<close>: when no callable changes the
  flag, it has the value it had at the call in every engine that the run shows and in
  the engine at the end; when no callable clears it, then once it is set it is set
  from then on, at the end of the run too. \<^verbatim>\<open>terminate()\<close> sets it. So, with callables
  that do not clear the flag, do not raise, and leave \<open>epoch\<close> and \<open>iteration\<close> alone,
  a run of an engine whose flag is set is: the new state with \<open>epoch = 0\<close> and
  \<open>iteration = 0\<close>, the dispatch of \<open>STARTED\<close>, the dispatch of \<open>COMPLETED\<close> on the
  engine that the first dispatch left, and the return of the state; nothing else is
  dispatched or called, the two counters are still \<open>0\<close>, and the flag is still set.
  The run ends when no callable registers a handler.
\<close>

theorem run_keeps_should_terminate:
  "(\<forall>r self' tr. run call data N self = Some (r, self', tr) \<longrightarrow>
      (keeps_flag call \<longrightarrow>
         should_terminate self' = should_terminate self \<and>
         (\<forall>x\<in>set (engines tr). should_terminate x = should_terminate self))
    \<and> (never_clears call \<longrightarrow>
         sorted_wrt (\<lambda>x y. should_terminate x \<longrightarrow> should_terminate y)
           (self # engines tr @ [self']))
    \<and> (never_clears call \<and>
        should_terminate self \<and> never_raises call \<and>
        keeps_attr ''iteration'' call \<and> keeps_attr ''epoch'' call \<longrightarrow>
         (let s0 = self\<lparr>state := Some
                [''iteration'' \<mapsto> PInt 0, ''output'' \<mapsto> PNone, ''batch'' \<mapsto> PNone,
                 ''dataloader'' \<mapsto> data, ''epoch'' \<mapsto> PInt 0,
                 ''max_epochs'' \<mapsto> PInt N, ''metrics'' \<mapsto> PDict []]\<rparr>
          in \<exists>s1.
               fire_event call STARTED [] s0 =
                 Some (Inr (), s1, [Fire STARTED [] s0, Done STARTED s1]) \<and>
               fire_event call COMPLETED [] s1 =
                 Some (Inr (), self', [Fire COMPLETED [] s1, Done COMPLETED self']) \<and>
               tr = [Fire STARTED [] s0, Done STARTED s1,
                     Fire COMPLETED [] s1, Done COMPLETED self'] \<and>
               r = Inr (state self') \<and>
               attr self' ''epoch'' = Some (PInt 0) \<and>
               attr self' ''iteration'' = Some (PInt 0) \<and>
               should_terminate self')))
   \<and> (never_clears call \<and>
       should_terminate self \<and> never_raises call \<and>
       keeps_attr ''iteration'' call \<and> keeps_attr ''epoch'' call \<and> never_registers call \<longrightarrow>
         (\<exists>res. run call data N self = Some res))
   \<and> should_terminate (terminate self) \<and> perform Terminate self = terminate self"
proof -
  define s0 where "s0 = self\<lparr>state := Some
                [''iteration'' \<mapsto> PInt 0, ''output'' \<mapsto> PNone, ''batch'' \<mapsto> PNone,
                 ''dataloader'' \<mapsto> data, ''epoch'' \<mapsto> PInt 0,
                 ''max_epochs'' \<mapsto> PInt N, ''metrics'' \<mapsto> PDict []]\<rparr>"
  define J where "J = (\<lambda>x. should_terminate x \<and> attr x ''epoch'' = Some (PInt 0) \<and>
                            attr x ''iteration'' = Some (PInt 0))"
  have run: "run call data N self = run_from call N s0"
    by (simp add: run_def new_state_eq s0_def)
  have same: "should_terminate self' = should_terminate self \<and>
         (\<forall>x\<in>set (engines tr). should_terminate x = should_terminate self)"
    if "run call data N self = Some (r, self', tr)"
      "keeps_flag call"
    for r self' tr
  proof -
    have "framed (\<lambda>x y. should_terminate y = should_terminate x)"
      by (simp add: framed_def)
    moreover from that(2) have "obeys call (\<lambda>x y. should_terminate y = should_terminate x)"
      by (simp add: obeys_def keeps_flag_def)
    ultimately have "sorted_wrt (\<lambda>x y. should_terminate y = should_terminate x)
       (self # engines tr @ [self'])"
      using that(1) by (rule along_D [OF along_run])
    then show ?thesis by (simp add: sorted_wrt_append)
  qed
  have once: "sorted_wrt (\<lambda>x y. should_terminate x \<longrightarrow> should_terminate y)
           (self # engines tr @ [self'])"
    if "run call data N self = Some (r, self', tr)"
      "never_clears call"
    for r self' tr
  proof -
    have "framed (\<lambda>x y. should_terminate x \<longrightarrow> should_terminate y)"
      by (simp add: framed_def)
    moreover from that(2) have "obeys call (\<lambda>x y. should_terminate x \<longrightarrow> should_terminate y)"
      by (simp add: obeys_def never_clears_def)
    ultimately show ?thesis
      using that(1) by (rule along_D [OF along_run])
  qed
  have inv: "J (snd (invoke call f a k x))"
    if "never_clears call"
      "keeps_attr ''iteration'' call" "keeps_attr ''epoch'' call" "J x" for f a k x
    using that unfolding J_def keeps_attr_def never_clears_def by simp
  have second: "\<exists>s1.
               fire_event call STARTED [] s0 =
                 Some (Inr (), s1, [Fire STARTED [] s0, Done STARTED s1]) \<and>
               fire_event call COMPLETED [] s1 =
                 Some (Inr (), self', [Fire COMPLETED [] s1, Done COMPLETED self']) \<and>
               tr = [Fire STARTED [] s0, Done STARTED s1,
                     Fire COMPLETED [] s1, Done COMPLETED self'] \<and>
               r = Inr (state self') \<and>
               attr self' ''epoch'' = Some (PInt 0) \<and>
               attr self' ''iteration'' = Some (PInt 0) \<and>
               should_terminate self'"
    if res: "run call data N self = Some (r, self', tr)"
      and h: "never_clears call"
      "should_terminate self" "never_raises call"
      "keeps_attr ''iteration'' call" "keeps_attr ''epoch'' call"
    for r self' tr
  proof -
    from h(2) have J0: "J s0" by (simp add: J_def s0_def)
    from res have rf: "run_from call N s0 = Some (r, self', tr)" by (simp only: run)
    from rf obtain r1 s1 t1 where 1: "fire_event call STARTED [] s0 = Some (r1, s1, t1)"
      by (rule run_from_not_None)
    from fire_event_never_raises [of call J, OF h(3) inv [OF h(1,4,5)] J0 1]
    have a1: "r1 = Inr ()" "J s1" "t1 = [Fire STARTED [] s0, Done STARTED s1]" by simp_all
    from a1(2) have f1: "should_terminate s1" "attr s1 ''epoch'' = Some (PInt 0)"
      by (simp_all add: J_def)
    from rf 1 [unfolded a1(1)] f1 obtain r2 s2 t2 where
      2: "fire_event call COMPLETED [] s1 = Some (r2, s2, t2)"
      by (rule run_from_not_None2)
    from fire_event_never_raises [of call J, OF h(3) inv [OF h(1,4,5)] a1(2) 2]
    have a2: "r2 = Inr ()" "J s2" "t2 = [Fire COMPLETED [] s1, Done COMPLETED s2]" by simp_all
    from run_from_terminated [OF 1 [unfolded a1(1)] f1 2 [unfolded a2(1)], of N] rf
    have e: "r = Inr (state s2)" "self' = s2" "tr = t1 @ t2" by simp_all
    show ?thesis
    proof (intro exI [of _ s1] conjI)
      from 1 a1 show "fire_event call STARTED [] s0 =
                 Some (Inr (), s1, [Fire STARTED [] s0, Done STARTED s1])" by simp
      from 2 a2 e show "fire_event call COMPLETED [] s1 =
                 Some (Inr (), self', [Fire COMPLETED [] s1, Done COMPLETED self'])" by simp
      from e a1 a2 show "tr = [Fire STARTED [] s0, Done STARTED s1,
                     Fire COMPLETED [] s1, Done COMPLETED self']" by simp
      from e show "r = Inr (state self')" by simp
      from a2(2) e show "attr self' ''epoch'' = Some (PInt 0)"
        "attr self' ''iteration'' = Some (PInt 0)" "should_terminate self'"
        by (simp_all add: J_def)
    qed
  qed
  have ends: "\<exists>res. run call data N self = Some res"
    if h: "never_clears call"
      "should_terminate self" "never_raises call"
      "keeps_attr ''iteration'' call" "keeps_attr ''epoch'' call" "never_registers call"
  proof -
    from h(2) have J0: "J s0" by (simp add: J_def s0_def)
    from fire_event_returns [OF h(6), of STARTED "[]" s0] obtain r1 s1 t1 where
      1: "fire_event call STARTED [] s0 = Some (r1, s1, t1)"
      by (cases "fire_event call STARTED [] s0") auto
    from fire_event_never_raises [of call J, OF h(3) inv [OF h(1,4,5)] J0 1]
    have a1: "r1 = Inr ()" "J s1" by simp_all
    from a1(2) have f1: "should_terminate s1" "attr s1 ''epoch'' = Some (PInt 0)"
      by (simp_all add: J_def)
    from fire_event_returns [OF h(6), of COMPLETED "[]" s1] obtain r2 s2 t2 where
      2: "fire_event call COMPLETED [] s1 = Some (r2, s2, t2)"
      by (cases "fire_event call COMPLETED [] s1") auto
    from fire_event_never_raises [of call J, OF h(3) inv [OF h(1,4,5)] a1(2) 2]
    have a2: "r2 = Inr ()" by simp
    from run_from_terminated [OF 1 [unfolded a1(1)] f1 2 [unfolded a2], of N]
    show ?thesis by (simp add: run)
  qed
  have t: "should_terminate (terminate self)" "perform Terminate self = terminate self"
    by (simp_all add: terminate_def)
  from same once second ends t show ?thesis
    unfolding Let_def s0_def [symmetric] by blast
qed

theorem run_keeps_should_terminate_witness:
  "never_clears stopping
   \<and> never_raises stopping \<and> keeps_attr ''iteration'' stopping
   \<and> keeps_attr ''epoch'' stopping \<and> never_registers stopping
   \<and> keeps_flag quiet
   \<and> (\<exists>r e tr. run quiet (PList [PInt 1, PInt 2]) 3 engine_stop = Some (r, e, tr)
         \<and> \<not> should_terminate e \<and> (\<forall>x\<in>set (engines tr). \<not> should_terminate x))
   \<and> (\<exists>st1 e1 tr1.
         run stopping (PList [PInt 1, PInt 2]) 3 engine_stop = Some (Inr (Some st1), e1, tr1)
         \<and> st1 ''iteration'' = Some (PInt 1) \<and> st1 ''epoch'' = Some (PInt 1)
         \<and> fired tr1 = [STARTED, EPOCH_STARTED, ITERATION_STARTED, ITERATION_COMPLETED,
                         COMPLETED]
         \<and> should_terminate e1
         \<and> (\<exists>st2 e2 tr2.
               run stopping (PList [PInt 1, PInt 2]) 3 e1 = Some (Inr (Some st2), e2, tr2)
               \<and> st2 ''iteration'' = Some (PInt 0) \<and> st2 ''epoch'' = Some (PInt 0)
               \<and> st2 ''seen'' = Some (PList [PStr ''on_start'', PStr ''on_end''])
               \<and> fired tr2 = [STARTED, COMPLETED] \<and> should_terminate e2))"
proof -
  have inv: "invoke stopping f a k s =
      (Inr PNone, if f = ''stop'' then terminate s
                  else s\<lparr>state := map_option
           (\<lambda>st. st(''seen'' \<mapsto> PList ((case st ''seen'' of Some (PList xs) \<Rightarrow> xs | _ \<Rightarrow> []) @ [PStr f])))
           (state s)\<rparr>)" for f a k s
    by (simp add: invoke_def stopping_def append_to_def)
  have h: "never_clears stopping"
    "never_raises stopping" "keeps_attr ''iteration'' stopping" "keeps_attr ''epoch'' stopping"
    "never_registers stopping"
    by (auto simp: inv never_clears_def never_raises_def keeps_attr_def never_registers_def
        terminate_def stopping_def attr_def split: option.splits)
  have q: "keeps_flag quiet"
    by (simp add: keeps_flag_def invoke_def quiet_def)
  note rk = run_keeps_should_terminate
  have nq: "never_registers quiet" by (simp add: never_registers_def invoke_def quiet_def)
  obtain r0 e0 tr0 where 0: "run quiet (PList [PInt 1, PInt 2]) 3 engine_stop = Some (r0, e0, tr0)"
    by (simp add: engine_defs quiet_def engine_stop_def engine0_def)
  from rk [of quiet "PList [PInt 1, PInt 2]" 3 engine_stop] 0 q
  have q0: "\<not> should_terminate e0 \<and> (\<forall>x\<in>set (engines tr0). \<not> should_terminate x)"
    by (simp add: engine_stop_def engine0_def)
  obtain st1 e1 tr1 where
    1: "run stopping (PList [PInt 1, PInt 2]) 3 engine_stop = Some (Inr (Some st1), e1, tr1)"
    and a1: "st1 ''iteration'' = Some (PInt 1)" "st1 ''epoch'' = Some (PInt 1)"
      "fired tr1 = [STARTED, EPOCH_STARTED, ITERATION_STARTED, ITERATION_COMPLETED, COMPLETED]"
      "should_terminate e1"
    and t1: "event_handlers e1 = event_handlers engine_stop"
    by (simp add: engine_defs stopping_def engine_stop_def engine0_def fired_def)
  from rk [of stopping "PList [PInt 1, PInt 2]" 3 e1] h a1(4)
  obtain r2 e2 tr2 where 2: "run stopping (PList [PInt 1, PInt 2]) 3 e1 = Some (r2, e2, tr2)"
    by auto
  define s0 where "s0 = e1\<lparr>state := Some
                [''iteration'' \<mapsto> PInt 0, ''output'' \<mapsto> PNone, ''batch'' \<mapsto> PNone,
                 ''dataloader'' \<mapsto> PList [PInt 1, PInt 2], ''epoch'' \<mapsto> PInt 0,
                 ''max_epochs'' \<mapsto> PInt 3, ''metrics'' \<mapsto> PDict []]\<rparr>"
  from rk [of stopping "PList [PInt 1, PInt 2]" 3 e1] h a1(4) 2
  obtain s1 where b: "fire_event stopping STARTED [] s0 =
                 Some (Inr (), s1, [Fire STARTED [] s0, Done STARTED s1])"
      "fire_event stopping COMPLETED [] s1 =
                 Some (Inr (), e2, [Fire COMPLETED [] s1, Done COMPLETED e2])"
      "tr2 = [Fire STARTED [] s0, Done STARTED s1, Fire COMPLETED [] s1, Done COMPLETED e2]"
      "r2 = Inr (state e2)" "attr e2 ''epoch'' = Some (PInt 0)"
      "attr e2 ''iteration'' = Some (PInt 0)" "should_terminate e2"
    unfolding Let_def s0_def [symmetric] by blast
  from b(5) obtain st2 where st2: "state e2 = Some st2" by (auto dest: attr_SomeD)
  from b(1) have s1: "s1 = s0\<lparr>state := Some
                [''iteration'' \<mapsto> PInt 0, ''output'' \<mapsto> PNone, ''batch'' \<mapsto> PNone,
                 ''dataloader'' \<mapsto> PList [PInt 1, PInt 2], ''epoch'' \<mapsto> PInt 0,
                 ''max_epochs'' \<mapsto> PInt 3, ''metrics'' \<mapsto> PDict [],
                 ''seen'' \<mapsto> PList [PStr ''on_start'']]\<rparr>"
    by (simp add: engine_defs stopping_def s0_def t1 engine_stop_def engine0_def)
  from b(2) have "attr e2 ''seen'' = Some (PList [PStr ''on_start'', PStr ''on_end''])"
    unfolding s1
    by (auto simp: engine_defs stopping_def s0_def t1 engine_stop_def engine0_def)
  with st2 b have c: "run stopping (PList [PInt 1, PInt 2]) 3 e1 = Some (Inr (Some st2), e2, tr2)"
    "st2 ''iteration'' = Some (PInt 0)" "st2 ''epoch'' = Some (PInt 0)"
    "st2 ''seen'' = Some (PList [PStr ''on_start'', PStr ''on_end''])"
    "fired tr2 = [STARTED, COMPLETED]" "should_terminate e2"
    using 2 by (simp_all add: attr_def)
  from h q 0 q0 1 a1 c show ?thesis by blast
qed

end
